theory Spec2Isabelle
  imports Main
begin

section \<open>Checkpoint store: src/utils/progressManager.js\<close>

text \<open>
  A progress record is a JavaScript object. The scrapers modelled below read and write
  the fields below and no others; a field that an object does not have (JavaScript's
  \<open>undefined\<close>) is \<open>None\<close>. All stored indices are loop counters, hence natural
  numbers.
\<close>

record progress =
  lastProcessedRegionIndex :: "nat option"
  regionsProgress :: "nat list option"
  currentShopIndex :: "nat option"
  currentRegionIndex :: "nat option"
  currentPageIndex :: "nat option"
  currentPage :: "nat option"
  processedIndexes :: "(nat \<times> nat list) list option"

definition emptyObject :: progress where
  "emptyObject = \<lparr> lastProcessedRegionIndex = None, regionsProgress = None,
     currentShopIndex = None, currentRegionIndex = None, currentPageIndex = None,
     currentPage = None, processedIndexes = None \<rparr>"

datatype js_error = RangeError | ReferenceError | OtherError

text \<open>
  The second argument of \<open>readProgress\<close> goes to \<open>Array(totalRegions).fill(0)\<close>.
  \<open>Array(x)\<close> builds an array of length \<open>x\<close> when \<open>x\<close> is a number that is a valid
  array length, throws a RangeError when \<open>x\<close> is any other number, and builds the
  one-element array \<open>[x]\<close> when \<open>x\<close> is not a number (also when it is missing).
\<close>

datatype array_arg = Num int | NonIntegral | NonNumber

fun arrayFill0 :: "array_arg \<Rightarrow> js_error + nat list" where
  "arrayFill0 (Num n) =
     (if 0 \<le> n \<and> n < 2 ^ 32 then Inr (replicate (nat n) 0) else Inl RangeError)"
| "arrayFill0 NonIntegral = Inl RangeError"
| "arrayFill0 NonNumber = Inr [0]"

text \<open>
  \<open>progressStore\<close> is a module-level object made by the literal \<open>{}\<close>: an ordinary object
  whose prototype is \<open>Object.prototype\<close>. The map holds its own properties, with one
  exception. The name \<open>__proto__\<close> is an accessor of \<open>Object.prototype\<close>: the assignment
  \<open>progressStore['__proto__'] = p\<close> creates no property, it makes the object \<open>p\<close> the
  prototype of \<open>progressStore\<close>, and reading the name returns that prototype. The entry of
  the map at \<open>__proto__\<close> stands for the prototype so installed; without an entry the
  prototype is \<open>Object.prototype\<close>.
\<close>

type_synonym progressStore = "string \<rightharpoonup> progress"

text \<open>The names that every ordinary object inherits from \<open>Object.prototype\<close>.\<close>

definition objectPrototype :: "string list" where
  "objectPrototype =
     [''constructor'', ''__defineGetter__'', ''__defineSetter__'', ''hasOwnProperty'',
      ''__lookupGetter__'', ''__lookupSetter__'', ''isPrototypeOf'', ''propertyIsEnumerable'',
      ''toString'', ''valueOf'', ''__proto__'', ''toLocaleString'']"

text \<open>
  Whether a progress record has a field of the given name whose value is truthy: a number
  other than 0, or any array or object.
\<close>

definition nonzero :: "nat option \<Rightarrow> bool" where
  "nonzero field = (case field of None \<Rightarrow> False | Some v \<Rightarrow> v \<noteq> 0)"

definition truthyField :: "progress \<Rightarrow> string \<Rightarrow> bool" where
  "truthyField p name =
     (if name = ''lastProcessedRegionIndex'' then nonzero (lastProcessedRegionIndex p)
      else if name = ''regionsProgress'' then regionsProgress p \<noteq> None
      else if name = ''currentShopIndex'' then nonzero (currentShopIndex p)
      else if name = ''currentRegionIndex'' then nonzero (currentRegionIndex p)
      else if name = ''currentPageIndex'' then nonzero (currentPageIndex p)
      else if name = ''currentPage'' then nonzero (currentPage p)
      else if name = ''processedIndexes'' then processedIndexes p \<noteq> None
      else False)"

text \<open>
  \<open>progressStore[taskName]\<close> is a property lookup: the own properties first, then the
  prototype chain. For a name that is no own property the chain yields a truthy value
  when the name is a field with a truthy value of the object installed as prototype, or
  a member of \<open>Object.prototype\<close> (all of them are functions, or, for \<open>__proto__\<close>, the
  prototype object itself).
\<close>

definition inherited :: "progressStore \<Rightarrow> string \<Rightarrow> bool" where
  "inherited store name =
     (name \<in> set objectPrototype
      \<or> (case store ''__proto__'' of None \<Rightarrow> False | Some q \<Rightarrow> truthyField q name))"

text \<open>
  What \<open>readProgress\<close> returns: a progress record held by the store, or the value that the
  prototype chain gives for the name, which is no progress record.
\<close>

datatype stored = Record progress | Inherited string

text \<open>
  \<open>if (!progressStore[taskName]) { progressStore[taskName] = { ... } }
  return progressStore[taskName]\<close>. Every value ever stored is an object, hence truthy; a
  name found along the prototype chain with a truthy value is returned as it is found and
  nothing is stored. Otherwise the default record is built, which throws when \<open>Array\<close>
  does, and stored as an own property. The function returns the value and the updated
  store.
\<close>

definition readProgress ::
  "progressStore \<Rightarrow> string \<Rightarrow> array_arg \<Rightarrow> js_error + (stored \<times> progressStore)" where
  "readProgress store taskName totalRegions =
     (case store taskName of
        Some p \<Rightarrow> Inr (Record p, store)
      | None \<Rightarrow>
          if inherited store taskName then Inr (Inherited taskName, store)
          else
            (case arrayFill0 totalRegions of
               Inl e \<Rightarrow> Inl e
             | Inr zeros \<Rightarrow>
                 (let fresh = emptyObject \<lparr> lastProcessedRegionIndex := Some 0,
                                            regionsProgress := Some zeros \<rparr>
                  in Inr (Record fresh, store(taskName \<mapsto> fresh)))))"

definition saveProgress :: "progressStore \<Rightarrow> string \<Rightarrow> progress \<Rightarrow> progressStore" where
  "saveProgress store taskName p = store(taskName \<mapsto> p)"

text \<open>
  The scrapers take the fields they need from the returned value by destructuring,
  \<open>let { currentPage } = progress\<close>. A value found along the prototype chain (a function,
  a number, an array, the table of indices, \<open>Object.prototype\<close>) has none of the fields of
  a progress record. Every scraper passes its own literal id, which is no inherited name,
  so what it receives is a record.
\<close>

fun fieldsOf :: "stored \<Rightarrow> progress" where
  "fieldsOf (Record p) = p"
| "fieldsOf (Inherited name) = emptyObject"

section \<open>Job status registry: src/lib/scraperController.js\<close>

datatype status = Idle | Running | Stopped

type_synonym scraperStatus = "string \<rightharpoonup> status"

definition setScraperStatus :: "scraperStatus \<Rightarrow> string \<Rightarrow> status \<Rightarrow> scraperStatus" where
  "setScraperStatus reg scraperId st = reg(scraperId \<mapsto> st)"

definition getScraperStatus :: "scraperStatus \<Rightarrow> string \<Rightarrow> status" where
  "getScraperStatus reg scraperId = (case reg scraperId of None \<Rightarrow> Idle | Some st \<Rightarrow> st)"

definition stopScraper :: "scraperStatus \<Rightarrow> string \<Rightarrow> scraperStatus" where
  "stopScraper reg scraperId = setScraperStatus reg scraperId Stopped"

definition resetScraper :: "scraperStatus \<Rightarrow> string \<Rightarrow> scraperStatus" where
  "resetScraper reg scraperId = setScraperStatus reg scraperId Idle"

section \<open>The retry helper: sggolf\_detail.js, thekgolf\_basic.js, sggolf\_basic.js\<close>

text \<open>
  \<open>fn\<close> is a closure with effects: it takes the state of everything it touches and
  returns either the error it threw or its value, with the new state. The helper's own
  effects are recorded in a trace: each call of \<open>fn\<close>, each warning, each sleep with its
  duration in milliseconds.
\<close>

datatype 'e retry_event = Invoked | Warned int int 'e | Slept nat

datatype ('e, 'a) retry_result = Returned 'a | Threw 'e | FellThrough

function retry_from ::
  "('s \<Rightarrow> ('e + 'a) \<times> 's) \<Rightarrow> int \<Rightarrow> int \<Rightarrow> 's \<Rightarrow> 'e retry_event list
     \<Rightarrow> ('e, 'a) retry_result \<times> 's \<times> 'e retry_event list" where
  "retry_from fn retries attempt s tr =
     (if attempt \<le> retries then
        (case fn s of
           (Inr v, s') \<Rightarrow> (Returned v, s', tr @ [Invoked])
         | (Inl e, s') \<Rightarrow>
             if attempt = retries then (Threw e, s', tr @ [Invoked])
             else retry_from fn retries (attempt + 1) s'
                    (tr @ [Invoked, Warned attempt retries e, Slept 1000]))
      else (FellThrough, s, tr))"
  by pat_completeness auto
termination
  by (relation "measure (\<lambda>(fn, retries, attempt, s, tr). nat (retries + 1 - attempt))") auto

declare retry_from.simps [simp del]

text \<open>The parameter \<open>retries\<close> defaults to 3; the loop starts at attempt 1.\<close>

definition retry ::
  "('s \<Rightarrow> ('e + 'a) \<times> 's) \<Rightarrow> int option \<Rightarrow> 's
     \<Rightarrow> ('e, 'a) retry_result \<times> 's \<times> 'e retry_event list" where
  "retry fn retries s =
     retry_from fn (case retries of None \<Rightarrow> 3 | Some r \<Rightarrow> r) 1 s []"

section \<open>Field validation: okongolf.js, sggolf\_basic.js\<close>

text \<open>
  The regular expressions of the validators, as syntax trees: \<open>\d\<close>, a literal
  character, concatenation and the bounded repetition \<open>r{m,n}\<close>. \<open>rests r s\<close> lists what
  is left of \<open>s\<close> after each way of matching \<open>r\<close> at its start; \<open>regex_test\<close> is
  \<open>RegExp.prototype.test\<close> for a pattern anchored by \<open>^\<close> and \<open>$\<close> without flags, where \<open>$\<close>
  matches at the very end of the input only.
\<close>

datatype rx = Digit | Chr char | Then rx rx | Times nat nat rx

definition isDigit :: "char \<Rightarrow> bool" where
  "isDigit c = (c \<in> set ''0123456789'')"

fun iter :: "(string \<Rightarrow> string list) \<Rightarrow> nat \<Rightarrow> string \<Rightarrow> string list" where
  "iter f 0 s = [s]"
| "iter f (Suc k) s = concat (map (iter f k) (f s))"

fun rests :: "rx \<Rightarrow> string \<Rightarrow> string list" where
  "rests Digit s = (case s of [] \<Rightarrow> [] | c # cs \<Rightarrow> if isDigit c then [cs] else [])"
| "rests (Chr a) s = (case s of [] \<Rightarrow> [] | c # cs \<Rightarrow> if c = a then [cs] else [])"
| "rests (Then r1 r2) s = concat (map (\<lambda>t. rests r2 t) (rests r1 s))"
| "rests (Times m n r) s = concat (map (\<lambda>k. iter (\<lambda>t. rests r t) k s) [m..<Suc n])"

definition regex_test :: "rx \<Rightarrow> string \<Rightarrow> bool" where
  "regex_test r s = ([] \<in> set (rests r s))"

text \<open>\<open>/^\d{2,3}-\d{3,4}-\d{4}$/\<close>\<close>

definition phoneRegex :: rx where
  "phoneRegex =
     Then (Times 2 3 Digit) (Then (Chr CHR ''-'')
       (Then (Times 3 4 Digit) (Then (Chr CHR ''-'') (Times 4 4 Digit))))"

definition isValidPhoneNumber :: "string \<Rightarrow> bool" where
  "isValidPhoneNumber phoneStr =
     (if phoneStr = ''-'' \<or> phoneStr = '''' then True
      else regex_test phoneRegex phoneStr)"

definition isValidStoreName :: "string \<Rightarrow> bool" where
  "isValidStoreName nameStr = (length nameStr > 0)"

definition isValidAddress :: "string \<Rightarrow> bool" where
  "isValidAddress addressStr = (length addressStr > 0)"

text \<open>
  The pattern in the specification's words: two or three digits, a hyphen, three or four
  digits, a hyphen, four digits.
\<close>

definition digits :: "string \<Rightarrow> bool" where
  "digits u = (\<forall>c \<in> set u. isDigit c)"

definition phone_pattern :: "string \<Rightarrow> bool" where
  "phone_pattern p =
     (\<exists>a b c. p = a @ ''-'' @ b @ ''-'' @ c
        \<and> digits a \<and> (length a = 2 \<or> length a = 3)
        \<and> digits b \<and> (length b = 3 \<or> length b = 4)
        \<and> digits c \<and> length c = 4)"

section \<open>What a scraper run reads and changes\<close>

text \<open>
  The process-wide state a run works on: the checkpoint store, the status registry, the
  run's output file on disk, the names of the \<open>progress_*.json\<close> files present on disk
  and the log stream. A JSON file on disk is absent (\<open>None\<close>), unreadable (\<open>readJson\<close>
  throws on it) or holds a list of records.

  The log keeps the lines that announce a unit, a stop, the end of the enumeration, and
  every warning and error; the other informational lines and the fixed delays between
  requests are left out.
\<close>

datatype 'r json_file = Corrupt | Json "'r list"

datatype level = INFO | WARN | ERROR

datatype msg =
    UnitHeader nat
  | RegionHeader nat
  | StopSignal
  | Halted
  | NoShopId nat
  | NoDetailInfo nat
  | UnitError nat
  | NoResults nat
  | NoData nat
  | NoNextPage nat
  | InvalidRecord nat
  | AlreadyProcessed nat
  | MoreClickFailed
  | WriteError
  | ExistingDataUnreadable
  | InputMissing
  | InputUnreadable
  | Completed
  | FatalError

record 'r world =
  progressStore :: progressStore
  scraperStatus :: scraperStatus
  outputFile :: "'r json_file option"
  progressFiles :: "string set"
  log :: "(level \<times> msg) list"

definition logLine :: "level \<Rightarrow> msg \<Rightarrow> 'r world \<Rightarrow> 'r world" where
  "logLine l m w = w \<lparr> log := log w @ [(l, m)] \<rparr>"

text \<open>
  \<open>fs.writeJson(OUTPUT_FILE, data)\<close> inside \<open>try { ... } catch (writeError) { logError(...) }\<close>:
  whether the write fails is the environment's choice; a failed write leaves the file as
  it was and logs an error.
\<close>

definition writeJsonLogged :: "bool \<Rightarrow> 'r list \<Rightarrow> 'r world \<Rightarrow> 'r world" where
  "writeJsonLogged fails xs w =
     (if fails then logLine ERROR WriteError w else w \<lparr> outputFile := Some (Json xs) \<rparr>)"

text \<open>
  Loading the records of an earlier run: \<open>if (await fs.pathExists(OUTPUT_FILE))\<close>, then
  \<open>readJson\<close> in a \<open>try\<close> whose \<open>catch\<close> logs and keeps the empty list.
\<close>

definition loadExisting :: "'r world \<Rightarrow> 'r list \<times> 'r world" where
  "loadExisting w =
     (case outputFile w of
        None \<Rightarrow> ([], w)
      | Some Corrupt \<Rightarrow> ([], logLine ERROR ExistingDataUnreadable w)
      | Some (Json xs) \<Rightarrow> (xs, w))"

text \<open>
  The stop endpoint calls \<open>stopScraper\<close> at a time of its own choosing. A run sees the
  registry only when it polls it, so a request is modelled as arriving just before a poll:
  \<open>arrive True\<close> is the registry after the request, \<open>arrive False\<close> the registry left alone.
\<close>

definition arrive :: "bool \<Rightarrow> string \<Rightarrow> 'r world \<Rightarrow> 'r world" where
  "arrive requested scraperId w =
     (if requested then w \<lparr> scraperStatus := stopScraper (scraperStatus w) scraperId \<rparr> else w)"

text \<open>How a loop body hands control back, and how an async function settles.\<close>

datatype signal = Next | Break | Return | ThrowStopped | ThrowError

datatype settled = Resolved | Rejected js_error

text \<open>\<open>let { field } = progress; if (field === undefined) field = d\<close>\<close>

definition orDefault :: "nat option \<Rightarrow> nat \<Rightarrow> nat" where
  "orDefault field d = (case field of None \<Rightarrow> d | Some v \<Rightarrow> v)"

section \<open>scrapeTheKgolf: src/lib/scrapers/thekgolf.js (detail scraper)\<close>

text \<open>
  A shop of the input file; \<open>!shop.shopId\<close> holds for a missing or null id and for the
  empty string. A detailed shop is the shop with its sensors.
\<close>

record shop =
  shopId :: "string option"
  shopName :: string

record detailedShop = shop +
  sensors :: "(string \<times> string) list"

definition falsy :: "string option \<Rightarrow> bool" where
  "falsy v = (v = None \<or> v = Some [])"

text \<open>
  What the POST for one shop does: it throws (anything in the \<open>try\<close> block before the
  push), it answers without \<open>shopDetail\<close>, or it answers with the sensors parsed from it.
\<close>

datatype detail_response = PostThrows | NoDetail | Detail "(string \<times> string) list"

record theK_env =
  inputFile :: "shop json_file option"
  stopRequest :: "nat \<Rightarrow> bool"
  detail :: "nat \<Rightarrow> detail_response"
  writeFails :: "nat \<Rightarrow> bool"
  finalWriteFails :: bool

definition theK_id :: string where
  "theK_id = ''thekgolf''"

definition theK_position :: "nat \<Rightarrow> progress" where
  "theK_position i = emptyObject \<lparr> currentShopIndex := Some i \<rparr>"

text \<open>One pass through the body of the \<open>for\<close> loop, lines 81 to 157.\<close>

definition theK_body ::
  "theK_env \<Rightarrow> shop list \<Rightarrow> nat \<Rightarrow> detailedShop list \<Rightarrow> detailedShop world
     \<Rightarrow> signal \<times> detailedShop list \<times> detailedShop world" where
  "theK_body env shops shopIndex detailedShops w0 =
     (let s = shops ! shopIndex;
          w = logLine INFO (UnitHeader shopIndex) w0
      in if getScraperStatus (scraperStatus w) theK_id = Stopped then
           (let w1 = logLine INFO StopSignal w;
                w2 = w1 \<lparr> progressStore :=
                            saveProgress (progressStore w1) theK_id (theK_position shopIndex) \<rparr>;
                w3 = w2 \<lparr> scraperStatus := resetScraper (scraperStatus w2) theK_id \<rparr>
            in (ThrowStopped, detailedShops, w3))
         else if falsy (shopId s) then
           (Next, detailedShops, logLine WARN (NoShopId shopIndex) w)
         else
           (case detail env shopIndex of
              PostThrows \<Rightarrow>
                (let w1 = logLine ERROR (UnitError shopIndex) w;
                     w2 = w1 \<lparr> progressStore :=
                            saveProgress (progressStore w1) theK_id (theK_position shopIndex) \<rparr>
                 in (Next, detailedShops, w2))
            | NoDetail \<Rightarrow>
                (let w1 = logLine WARN (NoDetailInfo shopIndex) w;
                     w2 = w1 \<lparr> progressStore :=
                            saveProgress (progressStore w1) theK_id
                              (theK_position (shopIndex + 1)) \<rparr>
                 in (Next, detailedShops, w2))
            | Detail sens \<Rightarrow>
                (let detailed = \<lparr> shopId = shopId s, shopName = shopName s, sensors = sens \<rparr>;
                     pushed = detailedShops @ [detailed];
                     w1 = writeJsonLogged (writeFails env shopIndex) pushed w;
                     w2 = w1 \<lparr> progressStore :=
                            saveProgress (progressStore w1) theK_id
                              (theK_position (shopIndex + 1)) \<rparr>
                 in (Next, pushed, w2))))"

text \<open>
  \<open>for (let shopIndex = currentShopIndex; shopIndex < shops.length; shopIndex++)\<close>; the
  stop check throws out of the loop.
\<close>

function theK_loop ::
  "theK_env \<Rightarrow> shop list \<Rightarrow> nat \<Rightarrow> detailedShop list \<Rightarrow> detailedShop world
     \<Rightarrow> signal \<times> detailedShop list \<times> detailedShop world" where
  "theK_loop env shops shopIndex detailedShops w =
     (if shopIndex < length shops then
        (case theK_body env shops shopIndex detailedShops
                (arrive (stopRequest env shopIndex) theK_id w) of
           (ThrowStopped, acc, w') \<Rightarrow> (ThrowStopped, acc, w')
         | (_, acc, w') \<Rightarrow> theK_loop env shops (shopIndex + 1) acc w')
      else (Next, detailedShops, w))"
  by pat_completeness auto
termination
  by (relation "measure (\<lambda>(env, shops, shopIndex, acc, w). length shops - shopIndex)") auto

declare theK_loop.simps [simp del]

text \<open>
  What follows the loop inside the outer \<open>try\<close> (the final write and the reset), and the
  outer \<open>catch\<close>, which for a stop only logs.
\<close>

definition theK_finish ::
  "theK_env \<Rightarrow> signal \<times> detailedShop list \<times> detailedShop world \<Rightarrow> detailedShop world" where
  "theK_finish env r =
     (case r of
        (ThrowStopped, acc, w) \<Rightarrow> logLine INFO Halted w
      | (_, acc, w) \<Rightarrow>
          (let w1 = writeJsonLogged (finalWriteFails env) acc w;
               w2 = w1 \<lparr> scraperStatus := resetScraper (scraperStatus w1) theK_id \<rparr>
           in logLine INFO Completed w2))"

text \<open>
  The whole function. A missing or unreadable input file sets the status to
  \<open>stopped\<close> and rejects before any request is made.
\<close>

definition scrapeTheKgolf ::
  "theK_env \<Rightarrow> detailedShop world \<Rightarrow> settled \<times> detailedShop world" where
  "scrapeTheKgolf env w0 =
     (let w1 = w0 \<lparr> scraperStatus := setScraperStatus (scraperStatus w0) theK_id Running \<rparr>
      in case readProgress (progressStore w1) theK_id NonNumber of
           Inl e \<Rightarrow> (Rejected e, w1)
         | Inr (progress, store) \<Rightarrow>
             (let w2 = w1 \<lparr> progressStore := store \<rparr>;
                  currentShopIndex = orDefault (currentShopIndex (fieldsOf progress)) 0
              in case inputFile env of
                   None \<Rightarrow>
                     (let w3 = logLine ERROR InputMissing w2
                      in (Rejected OtherError,
                          w3 \<lparr> scraperStatus :=
                                 setScraperStatus (scraperStatus w3) theK_id Stopped \<rparr>))
                 | Some Corrupt \<Rightarrow>
                     (let w3 = logLine ERROR InputUnreadable w2
                      in (Rejected OtherError,
                          w3 \<lparr> scraperStatus :=
                                 setScraperStatus (scraperStatus w3) theK_id Stopped \<rparr>))
                 | Some (Json shops) \<Rightarrow>
                     (let (detailedShops, w3) = loadExisting w2
                      in (Resolved,
                          theK_finish env
                            (theK_loop env shops currentShopIndex detailedShops w3)))))"

section \<open>scrapeCiteezen: src/lib/scrapers/citeezon.js\<close>

record store =
  storeTitle :: string
  storeAddress :: string
  tel :: string
  link :: string

text \<open>
  What opening a listing page does: \<open>page.goto\<close> or the extraction throws, or the page
  yields a list of stores (an empty one when the page has no entries).
\<close>

datatype 'r page_result = PageThrows | Extracted "'r list"

record cz_env =
  chromiumFound :: bool
  stopSignal :: "nat \<Rightarrow> bool"
  listing :: "nat \<Rightarrow> store page_result"
  cz_writeThrows :: "nat \<Rightarrow> bool"

definition cz_name :: string where
  "cz_name = ''citeezon''"

definition cz_position :: "nat \<Rightarrow> progress" where
  "cz_position pageNum = emptyObject \<lparr> currentPage := Some pageNum \<rparr>"

text \<open>
  \<open>stores.forEach(store => { if (!allStores.some(e => e.link === store.link))
  allStores.push(store) })\<close>: the test sees the stores pushed earlier in the same pass.
\<close>

fun addNew :: "store list \<Rightarrow> store list \<Rightarrow> store list" where
  "addNew allStores [] = allStores"
| "addNew allStores (st # stores) =
     (if \<not> list_ex (\<lambda>e. link e = link st) allStores
      then addNew (allStores @ [st]) stores
      else addNew allStores stores)"

text \<open>
  One pass through the loop body, lines 75 to 147. The write is not caught on its own
  here: when it throws, the \<open>catch\<close> of the page takes over.
\<close>

definition cz_body ::
  "cz_env \<Rightarrow> nat \<Rightarrow> store list \<Rightarrow> store world \<Rightarrow> signal \<times> store list \<times> store world" where
  "cz_body env pageNum allStores w0 =
     (if stopSignal env pageNum then
        (let w1 = logLine INFO StopSignal w0
         in (Return, allStores,
             w1 \<lparr> progressStore :=
                    saveProgress (progressStore w1) cz_name (cz_position pageNum) \<rparr>))
      else
        (let w = logLine INFO (UnitHeader pageNum) w0
         in case listing env pageNum of
              PageThrows \<Rightarrow>
                (let w1 = logLine ERROR (UnitError pageNum) w
                 in (Next, allStores,
                     w1 \<lparr> progressStore :=
                            saveProgress (progressStore w1) cz_name
                              (cz_position (pageNum + 1)) \<rparr>))
            | Extracted stores \<Rightarrow>
                if length stores = 0 then (Break, allStores, logLine INFO (NoData pageNum) w)
                else
                  (let added = addNew allStores stores
                   in if cz_writeThrows env pageNum then
                        (let w1 = logLine ERROR (UnitError pageNum) w
                         in (Next, added,
                             w1 \<lparr> progressStore :=
                                    saveProgress (progressStore w1) cz_name
                                      (cz_position (pageNum + 1)) \<rparr>))
                      else
                        (let w1 = w \<lparr> outputFile := Some (Json added) \<rparr>
                         in (Next, added,
                             w1 \<lparr> progressStore :=
                                    saveProgress (progressStore w1) cz_name
                                      (cz_position (pageNum + 1)) \<rparr>)))))"

text \<open>\<open>for (let pageNum = currentPage; pageNum <= 100; pageNum++)\<close>\<close>

function cz_loop ::
  "cz_env \<Rightarrow> nat \<Rightarrow> store list \<Rightarrow> store world \<Rightarrow> signal \<times> store list \<times> store world" where
  "cz_loop env pageNum allStores w =
     (if pageNum \<le> 100 then
        (case cz_body env pageNum allStores w of
           (Next, acc, w') \<Rightarrow> cz_loop env (pageNum + 1) acc w'
         | (sig, acc, w') \<Rightarrow> (sig, acc, w'))
      else (Next, allStores, w))"
  by pat_completeness auto
termination
  by (relation "measure (\<lambda>(env, pageNum, acc, w). 101 - pageNum)") auto

declare cz_loop.simps [simp del]

text \<open>
  After the loop: a \<open>return\<close> from the stop check skips the completion line; otherwise
  the run logs that it is complete. Nothing rejects once the browser is up.
\<close>

definition cz_finish :: "signal \<times> store list \<times> store world \<Rightarrow> settled \<times> store world" where
  "cz_finish r =
     (case r of
        (Return, acc, w) \<Rightarrow> (Resolved, w)
      | (_, acc, w) \<Rightarrow> (Resolved, logLine INFO Completed w))"

text \<open>The whole function. \<open>if (!currentPage) currentPage = 1\<close> also replaces a stored 0.\<close>

definition scrapeCiteezen :: "cz_env \<Rightarrow> store world \<Rightarrow> settled \<times> store world" where
  "scrapeCiteezen env w0 =
     (case readProgress (progressStore w0) cz_name NonNumber of
        Inl e \<Rightarrow> (Rejected e, w0)
      | Inr (progress, store) \<Rightarrow>
          (let w1 = w0 \<lparr> progressStore := store \<rparr>;
               currentPage =
                 (case currentPage (fieldsOf progress) of
                    None \<Rightarrow> 1 | Some p \<Rightarrow> if p = 0 then 1 else p)
           in if \<not> chromiumFound env then (Rejected OtherError, logLine ERROR FatalError w1)
              else
                (let (allStores, w2) = loadExisting w1
                 in cz_finish (cz_loop env currentPage allStores w2))))"

section \<open>scrapeOkongolf: src/lib/scrapers/okgolf.js\<close>

text \<open>A table row as extracted from the page, and the record stored for it.\<close>

record row =
  number :: int
  storeName :: string
  phoneNumber :: string
  address :: string
  imgSrc :: string

record okStore =
  okNumber :: int
  okStoreName :: string
  okPhoneNumber :: "string option"
  okAddress :: string
  roomCount :: "nat option"

subsection \<open>The helpers below the scraper\<close>

fun decimal :: "nat \<Rightarrow> string" where
  "decimal n =
     (if n < 10 then [''0123456789'' ! n]
      else decimal (n div 10) @ [''0123456789'' ! (n mod 10)])"

declare decimal.simps [simp del]

definition numberToString :: "int \<Rightarrow> string" where
  "numberToString n = (if n < 0 then ''-'' @ decimal (nat (- n)) else decimal (nat n))"

text \<open>
  \<open>String(number).replace(/\D/g, '')\<close> keeps the digits; \<open>/^\d+$/\<close> accepts a non-empty
  string of digits.
\<close>

definition isValidNumber :: "int \<Rightarrow> bool" where
  "isValidNumber n =
     (let cleanedNumber = filter isDigit (numberToString n)
      in cleanedNumber \<noteq> [] \<and> list_all isDigit cleanedNumber)"

fun stripPrefix :: "string \<Rightarrow> string \<Rightarrow> string option" where
  "stripPrefix [] s = Some s"
| "stripPrefix (p # ps) [] = None"
| "stripPrefix (p # ps) (c # cs) = (if p = c then stripPrefix ps cs else None)"

definition parseInt10 :: "string \<Rightarrow> nat" where
  "parseInt10 ds = foldl (\<lambda>acc c. 10 * acc + (of_char c - 48)) 0 ds"

text \<open>
  \<open>/new_icon2_(\d+)\.gif$/\<close> at the start of \<open>t\<close>, reaching the end of the string; the
  scan over the start positions follows.
\<close>

definition roomCountAt :: "string \<Rightarrow> nat option" where
  "roomCountAt t =
     (case stripPrefix ''new_icon2_'' t of
        None \<Rightarrow> None
      | Some rest \<Rightarrow>
          (let ds = takeWhile isDigit rest
           in if ds \<noteq> [] \<and> dropWhile isDigit rest = ''.gif''
              then Some (parseInt10 ds) else None))"

fun extractRoomCount :: "string \<Rightarrow> nat option" where
  "extractRoomCount [] = roomCountAt []"
| "extractRoomCount (c # cs) =
     (case roomCountAt (c # cs) of Some n \<Rightarrow> Some n | None \<Rightarrow> extractRoomCount cs)"

subsection \<open>The scraper\<close>

datatype ok_page = GotoThrows | TableTimeout | Rows "row list"

text \<open>
  \<open>ok_stopAtPage p\<close>: a stop request arrives before the poll at the top of page \<open>p\<close>;
  \<open>ok_stopAtStore p j\<close>: before the poll that opens the task of row \<open>j\<close> of page \<open>p\<close>.
\<close>

record ok_env =
  ok_stopAtPage :: "nat \<Rightarrow> bool"
  ok_stopAtStore :: "nat \<Rightarrow> nat \<Rightarrow> bool"
  ok_page :: "nat \<Rightarrow> ok_page"
  ok_writeFails :: "nat \<Rightarrow> nat \<Rightarrow> bool"

definition ok_id :: string where
  "ok_id = ''okongolf_store''"

definition ok_progressFile :: string where
  "ok_progressFile = ''progress_okongolf.json''"

definition MAX_PAGE :: nat where
  "MAX_PAGE = 2"

text \<open>
  The variables of the function that its closures share: the flag \<open>isStopping\<close>, the
  array \<open>allStores\<close>, the object \<open>processedIndexes\<close> (page number to row indices) and
  the object \<open>progress\<close>. \<open>progress\<close> is the object \<open>readProgress\<close> returned, so it is also
  what the store holds until a fresh object is saved; the code saves it right after each
  change, which is where the model updates the store.
\<close>

record ok_vars =
  v_isStopping :: bool
  v_allStores :: "okStore list"
  v_processedIndexes :: "(nat \<times> nat list) list"
  v_progress :: progress

definition alreadyProcessed :: "(nat \<times> nat list) list \<Rightarrow> nat \<Rightarrow> nat \<Rightarrow> bool" where
  "alreadyProcessed pidx pageNum storeIndex =
     (case map_of pidx pageNum of None \<Rightarrow> False | Some done \<Rightarrow> storeIndex \<in> set done)"

definition pushIndex :: "(nat \<times> nat list) list \<Rightarrow> nat \<Rightarrow> nat \<Rightarrow> (nat \<times> nat list) list" where
  "pushIndex pidx pageNum storeIndex =
     (case map_of pidx pageNum of
        None \<Rightarrow> pidx @ [(pageNum, [storeIndex])]
      | Some done \<Rightarrow>
          map (\<lambda>(k, v). if k = pageNum then (k, v @ [storeIndex]) else (k, v)) pidx)"

definition ok_stopRecord :: "nat \<Rightarrow> (nat \<times> nat list) list \<Rightarrow> progress" where
  "ok_stopRecord pageNum pidx =
     emptyObject \<lparr> currentPage := Some pageNum, processedIndexes := Some pidx \<rparr>"

text \<open>
  \<open>processStore(store, index)\<close>, lines 150 to 239. The result says whether the task
  threw \<open>ScraperStoppedError\<close>. Nothing in the \<open>try\<close> block throws in this model, so its
  \<open>catch\<close> is not reached.
\<close>

definition processStore ::
  "ok_env \<Rightarrow> nat \<Rightarrow> row \<Rightarrow> nat \<Rightarrow> ok_vars \<times> okStore world \<Rightarrow> bool \<times> ok_vars \<times> okStore world" where
  "processStore env pageNum st storeIndex vw =
     (let (v, w) = vw
      in if getScraperStatus (scraperStatus w) ok_id = Stopped \<and> \<not> v_isStopping v then
           (let w1 = logLine INFO StopSignal w;
                w2 = w1 \<lparr> progressStore :=
                            saveProgress (progressStore w1) ok_id
                              (ok_stopRecord pageNum (v_processedIndexes v)) \<rparr>;
                w3 = w2 \<lparr> scraperStatus := resetScraper (scraperStatus w2) ok_id \<rparr>
            in (True, v \<lparr> v_isStopping := True \<rparr>, w3))
         else if alreadyProcessed (v_processedIndexes v) pageNum storeIndex then
           (False, v, logLine INFO (AlreadyProcessed storeIndex) w)
         else if \<not> isValidNumber (number st) \<or> \<not> isValidStoreName (storeName st)
                 \<or> \<not> isValidPhoneNumber (phoneNumber st) \<or> \<not> isValidAddress (address st) then
           (False, v, logLine INFO (InvalidRecord storeIndex) w)
         else
           (let detailedStore =
                  \<lparr> okNumber = number st, okStoreName = storeName st,
                    okPhoneNumber = (if phoneNumber st = ''-'' then None else Some (phoneNumber st)),
                    okAddress = address st, roomCount = extractRoomCount (imgSrc st) \<rparr>;
                pushed = v_allStores v @ [detailedStore];
                pidx = pushIndex (v_processedIndexes v) pageNum storeIndex;
                w1 = writeJsonLogged (ok_writeFails env pageNum storeIndex) pushed w;
                p = (v_progress v) \<lparr> currentPage := Some pageNum, processedIndexes := Some pidx \<rparr>;
                w2 = w1 \<lparr> progressStore := saveProgress (progressStore w1) ok_id p \<rparr>
            in (False, v \<lparr> v_allStores := pushed, v_processedIndexes := pidx, v_progress := p \<rparr>, w2)))"

text \<open>
  \<open>rows.map((store, index) => limit(() => processStore(store, index)))\<close> and
  \<open>Promise.all\<close>. The tasks are taken one after the other in the order of the rows, which
  is the order in which \<open>p-limit\<close> starts them; a task that throws does not keep the later
  ones from running, it makes \<open>Promise.all\<close> reject. The first component of the result
  says whether some task threw.
\<close>

fun ok_tasks ::
  "ok_env \<Rightarrow> nat \<Rightarrow> row list \<Rightarrow> nat \<Rightarrow> bool \<times> ok_vars \<times> okStore world
     \<Rightarrow> bool \<times> ok_vars \<times> okStore world" where
  "ok_tasks env pageNum [] storeIndex r = r"
| "ok_tasks env pageNum (st # rest) storeIndex (threw, v, w) =
     (let (t, v', w') =
            processStore env pageNum st storeIndex
              (v, arrive (ok_stopAtStore env pageNum storeIndex) ok_id w)
      in ok_tasks env pageNum rest (storeIndex + 1) (threw \<or> t, v', w'))"

text \<open>One pass through the body of the page loop, lines 84 to 255.\<close>

definition ok_body ::
  "ok_env \<Rightarrow> nat \<Rightarrow> ok_vars \<Rightarrow> okStore world \<Rightarrow> signal \<times> ok_vars \<times> okStore world" where
  "ok_body env pageNum v w0 =
     (if getScraperStatus (scraperStatus w0) ok_id = Stopped \<and> \<not> v_isStopping v then
        (let w1 = logLine INFO StopSignal w0;
             w2 = w1 \<lparr> progressStore :=
                         saveProgress (progressStore w1) ok_id
                           (ok_stopRecord pageNum (v_processedIndexes v)) \<rparr>;
             w3 = w2 \<lparr> scraperStatus := resetScraper (scraperStatus w2) ok_id \<rparr>
         in (ThrowStopped, v \<lparr> v_isStopping := True \<rparr>, w3))
      else
        (let w = logLine INFO (UnitHeader pageNum) w0
         in case ok_page env pageNum of
              GotoThrows \<Rightarrow> (Next, v, logLine ERROR (UnitError pageNum) w)
            | TableTimeout \<Rightarrow> (Next, v, logLine ERROR (UnitError pageNum) w)
            | Rows rows \<Rightarrow>
                if length rows = 0 then (Break, v, logLine INFO (NoData pageNum) w)
                else
                  (let (threw, v1, w1) = ok_tasks env pageNum rows 0 (False, v, w)
                   in if threw then (ThrowStopped, v1, w1)
                      else
                        (let p = (v_progress v1) \<lparr> currentPage := Some (pageNum + 1),
                                                     processedIndexes := Some (v_processedIndexes v1) \<rparr>;
                             w2 = w1 \<lparr> progressStore := saveProgress (progressStore w1) ok_id p \<rparr>
                         in (Next, v1 \<lparr> v_progress := p \<rparr>, w2)))))"

text \<open>\<open>for (let pageNum = currentPage; pageNum <= MAX_PAGE; pageNum++)\<close>\<close>

function ok_loop ::
  "ok_env \<Rightarrow> nat \<Rightarrow> ok_vars \<Rightarrow> okStore world \<Rightarrow> signal \<times> ok_vars \<times> okStore world" where
  "ok_loop env pageNum v w =
     (if pageNum \<le> MAX_PAGE then
        (case ok_body env pageNum v (arrive (ok_stopAtPage env pageNum) ok_id w) of
           (Next, v', w') \<Rightarrow> ok_loop env (pageNum + 1) v' w'
         | (sig, v', w') \<Rightarrow> (sig, v', w'))
      else (Next, v, w))"
  by pat_completeness auto
termination
  by (relation "measure (\<lambda>(env, pageNum, v, w). Suc MAX_PAGE - pageNum)") auto

declare ok_loop.simps [simp del]

text \<open>
  After the loop, still inside the \<open>try\<close>: the file \<open>progress_okongolf.json\<close> is removed if
  it exists, and the status is reset. The \<open>catch\<close> of the function evaluates
  \<open>store.storeName\<close> where no \<open>store\<close> is in scope, so whatever reaches it leaves the
  function as a ReferenceError.
\<close>

definition ok_finish :: "signal \<times> ok_vars \<times> okStore world \<Rightarrow> settled \<times> okStore world" where
  "ok_finish r =
     (case r of
        (ThrowStopped, v, w) \<Rightarrow> (Rejected ReferenceError, w)
      | (_, v, w) \<Rightarrow>
          (let w1 = logLine INFO Completed w;
               w2 = w1 \<lparr> progressFiles := progressFiles w1 - {ok_progressFile} \<rparr>
           in (Resolved, w2 \<lparr> scraperStatus := resetScraper (scraperStatus w2) ok_id \<rparr>)))"

definition scrapeOkongolf :: "ok_env \<Rightarrow> okStore world \<Rightarrow> settled \<times> okStore world" where
  "scrapeOkongolf env w0 =
     (let w1 = w0 \<lparr> scraperStatus := setScraperStatus (scraperStatus w0) ok_id Running \<rparr>
      in case readProgress (progressStore w1) ok_id NonNumber of
           Inl e \<Rightarrow> (Rejected e, w1)
         | Inr (progress, store) \<Rightarrow>
             (let w2 = w1 \<lparr> progressStore := store \<rparr>;
                  currentPage = orDefault (currentPage (fieldsOf progress)) 1;
                  pidx = (case processedIndexes (fieldsOf progress) of None \<Rightarrow> [] | Some x \<Rightarrow> x);
                  (existing, w3) = loadExisting w2;
                  v = \<lparr> v_isStopping = False, v_allStores = existing, v_processedIndexes = pidx,
                        v_progress = fieldsOf progress \<rparr>
              in ok_finish (ok_loop env currentPage v w3)))"

section \<open>scrapeFieldzone: src/lib/scrapers/fieldzone.js\<close>

record fzStore =
  fzNumber :: string
  fzName :: string
  fzTel :: string
  fzAddress :: string
  fzDetail :: string
  fzDevice :: "string option"



definition fz_id :: string where
  "fz_id = ''fieldzone''"










section \<open>scrapeFriendgolf: src/lib/scrapers/friendgolf.js\<close>

record fgShop =
  fgName :: "string option"
  fgAddress :: "string option"
  fgTel :: "string option"
  fgShopId :: "string option"

text \<open>
  The array \<open>regions\<close> of the source has one entry, the province of Seoul with its 25
  districts. Only the lengths matter to the loops: the list gives the number of districts
  of each entry. The loops below take the list as a parameter.
\<close>

definition regions :: "nat list" where
  "regions = [25]"

text \<open>
  One round of the \<open>while (true)\<close> loop around the "more" button, as the page decides it:
  the button is not found, or is not visible (both leave the loop); probing it throws (the
  error leaves the loop for the \<open>catch\<close> of the unit); the click or the extraction after it
  throws (logged, the loop goes on); or more shops are loaded. The write after loading may
  fail. The status is polled at the end of a round that did not leave the loop; the last
  flag says whether a stop request arrives before that poll.
\<close>

datatype more_step =
    ButtonGone
  | ButtonHidden
  | ProbeThrows
  | ClickFails bool
  | MoreShops "fgShop list" bool bool

text \<open>
  What the search for one district does: the navigation or the typing throws; the result
  list does not show up within the timeout; or the list shows its first shops (whose write
  may fail) and then answers round after round of the button loop.
\<close>

datatype fg_unit = NavigationThrows | ResultsTimeout | Results "fgShop list" bool "nat \<Rightarrow> more_step"

record fg_env =
  fg_stopAtUnit :: "nat \<Rightarrow> nat \<Rightarrow> bool"
  fg_unit :: "nat \<Rightarrow> nat \<Rightarrow> fg_unit"
  fg_regionWriteFails :: "nat \<Rightarrow> bool"

definition fg_id :: string where
  "fg_id = ''friendgolf''"

definition fg_position :: "nat \<Rightarrow> nat \<Rightarrow> progress" where
  "fg_position regionIndex pageIndex =
     emptyObject \<lparr> currentRegionIndex := Some regionIndex, currentPageIndex := Some pageIndex \<rparr>"

text \<open>The stop branch, the same at both polls: save the current unit, reset the status.\<close>

definition fg_stop :: "nat \<Rightarrow> nat \<Rightarrow> fgShop world \<Rightarrow> fgShop world" where
  "fg_stop regionIndex pageIndex w =
     (let w1 = logLine INFO StopSignal w;
          w2 = w1 \<lparr> progressStore :=
                      saveProgress (progressStore w1) fg_id (fg_position regionIndex pageIndex) \<rparr>
      in w2 \<lparr> scraperStatus := resetScraper (scraperStatus w2) fg_id \<rparr>)"

text \<open>
  \<open>newShops.filter(shop => shop.shopId && !existingShopIds.has(shop.shopId))\<close>, the set of
  ids being taken from \<open>allShops\<close> before the filter runs.
\<close>

definition uniqueNewShops :: "fgShop list \<Rightarrow> fgShop list \<Rightarrow> fgShop list" where
  "uniqueNewShops allShops newShops =
     filter (\<lambda>sh. \<not> falsy (fgShopId sh) \<and> fgShopId sh \<notin> set (map fgShopId allShops)) newShops"

text \<open>
  The \<open>while (true)\<close> loop, lines 157 to 223, from round \<open>n\<close> on. The loop does not return
  while the page keeps the button visible; the result is then \<open>None\<close>.
\<close>

partial_function (option) fg_more ::
  "nat \<Rightarrow> nat \<Rightarrow> (nat \<Rightarrow> more_step) \<Rightarrow> nat \<Rightarrow> fgShop list \<Rightarrow> fgShop world
     \<Rightarrow> (signal \<times> fgShop list \<times> fgShop world) option" where
  "fg_more regionIndex pageIndex steps n allShops w =
     (case steps n of
        ButtonGone \<Rightarrow> Some (Next, allShops, w)
      | ButtonHidden \<Rightarrow> Some (Next, allShops, w)
      | ProbeThrows \<Rightarrow> Some (ThrowError, allShops, w)
      | ClickFails stopArrives \<Rightarrow>
          (let w1 = arrive stopArrives fg_id (logLine ERROR MoreClickFailed w)
           in if getScraperStatus (scraperStatus w1) fg_id = Stopped
              then Some (ThrowStopped, allShops, fg_stop regionIndex pageIndex w1)
              else fg_more regionIndex pageIndex steps (n + 1) allShops w1)
      | MoreShops newShops writeFailed stopArrives \<Rightarrow>
          (let pushed = allShops @ uniqueNewShops allShops newShops;
               w1 = arrive stopArrives fg_id (writeJsonLogged writeFailed pushed w)
           in if getScraperStatus (scraperStatus w1) fg_id = Stopped
              then Some (ThrowStopped, pushed, fg_stop regionIndex pageIndex w1)
              else fg_more regionIndex pageIndex steps (n + 1) pushed w1))"

declare fg_more.simps [code]

text \<open>
  One pass through the body of the district loop, lines 85 to 243. The variable
  \<open>currentPageIndex\<close> of the function is threaded through as \<open>cpi0\<close> (in) and as the third
  component of the result (out). A stop seen at the top is thrown to the \<open>catch\<close> of
  the function (\<open>ThrowStopped\<close>); a stop seen inside the button loop is caught by the
  \<open>catch\<close> of the unit, which leaves the district loop (\<open>Break\<close>).
\<close>

definition fg_body ::
  "fg_env \<Rightarrow> nat \<Rightarrow> nat \<Rightarrow> fgShop list \<Rightarrow> nat \<Rightarrow> fgShop world
     \<Rightarrow> (signal \<times> fgShop list \<times> nat \<times> fgShop world) option" where
  "fg_body env regionIndex pageIndex allShops cpi0 w0 =
     (let w = logLine INFO (UnitHeader pageIndex) w0
      in if getScraperStatus (scraperStatus w) fg_id = Stopped then
           Some (ThrowStopped, allShops, cpi0, fg_stop regionIndex pageIndex w)
         else
           (case fg_unit env regionIndex pageIndex of
              NavigationThrows \<Rightarrow>
                (let w1 = logLine ERROR (UnitError pageIndex) w
                 in Some (Next, allShops, cpi0,
                      w1 \<lparr> progressStore :=
                             saveProgress (progressStore w1) fg_id
                               (fg_position regionIndex pageIndex) \<rparr>))
            | ResultsTimeout \<Rightarrow>
                Some (Next, allShops, cpi0, logLine ERROR (NoResults pageIndex) w)
            | Results shops writeFailed steps \<Rightarrow>
                (let pushed = allShops @ shops;
                     w1 = writeJsonLogged writeFailed pushed w
                 in case fg_more regionIndex pageIndex steps 0 pushed w1 of
                      None \<Rightarrow> None
                    | Some (Next, acc, w2) \<Rightarrow>
                        Some (Next, acc, pageIndex + 1,
                          w2 \<lparr> progressStore :=
                                 saveProgress (progressStore w2) fg_id
                                   (fg_position regionIndex (pageIndex + 1)) \<rparr>)
                    | Some (ThrowStopped, acc, w2) \<Rightarrow>
                        Some (Break, acc, cpi0, logLine INFO Halted w2)
                    | Some (_, acc, w2) \<Rightarrow>
                        (let w3 = logLine ERROR (UnitError pageIndex) w2
                         in Some (Next, acc, cpi0,
                              w3 \<lparr> progressStore :=
                                     saveProgress (progressStore w3) fg_id
                                       (fg_position regionIndex pageIndex) \<rparr>)))))"

text \<open>
  \<open>for (let pageIndex = currentPageIndex; pageIndex < districts.length; pageIndex++)\<close>,
  from \<open>pageIndex\<close> on.
\<close>

function fg_pages ::
  "fg_env \<Rightarrow> nat \<Rightarrow> nat \<Rightarrow> nat \<Rightarrow> fgShop list \<Rightarrow> nat \<Rightarrow> fgShop world
     \<Rightarrow> (signal \<times> fgShop list \<times> nat \<times> fgShop world) option" where
  "fg_pages env regionIndex districts pageIndex allShops cpi0 w =
     (if pageIndex < districts then
        (case fg_body env regionIndex pageIndex allShops cpi0
                (arrive (fg_stopAtUnit env regionIndex pageIndex) fg_id w) of
           None \<Rightarrow> None
         | Some (Next, acc, cpi, w') \<Rightarrow> fg_pages env regionIndex districts (pageIndex + 1) acc cpi w'
         | Some (sig, acc, cpi, w') \<Rightarrow> Some (sig, acc, cpi, w'))
      else Some (Next, allShops, cpi0, w))"
  by pat_completeness auto
termination
  by (relation "measure (\<lambda>(env, r, districts, pageIndex, acc, cpi, w). districts - pageIndex)")
    auto

declare fg_pages.simps [simp del]

text \<open>
  The end of a region, lines 246 to 265: the shops with an id, the first of each id, go to
  the file; \<open>allShops\<close> itself stays as it is.
\<close>

fun uniqueShops :: "string option list \<Rightarrow> fgShop list \<Rightarrow> fgShop list" where
  "uniqueShops seen [] = []"
| "uniqueShops seen (sh # rest) =
     (if \<not> falsy (fgShopId sh) \<and> fgShopId sh \<notin> set seen
      then sh # uniqueShops (fgShopId sh # seen) rest
      else uniqueShops seen rest)"

definition fg_regionEnd :: "fg_env \<Rightarrow> nat \<Rightarrow> fgShop list \<Rightarrow> fgShop world \<Rightarrow> fgShop world" where
  "fg_regionEnd env regionIndex allShops w =
     writeJsonLogged (fg_regionWriteFails env regionIndex) (uniqueShops [] allShops) w"

text \<open>
  \<open>for (let regionIndex = currentRegionIndex; regionIndex < regions.length; regionIndex++)\<close>.
  The district loop of every region starts at the value \<open>currentPageIndex\<close> has at that
  moment.
\<close>

function fg_regions ::
  "fg_env \<Rightarrow> nat list \<Rightarrow> nat \<Rightarrow> fgShop list \<Rightarrow> nat \<Rightarrow> fgShop world
     \<Rightarrow> (signal \<times> fgShop list \<times> nat \<times> fgShop world) option" where
  "fg_regions env regs regionIndex allShops cpi0 w =
     (if regionIndex < length regs then
        (case fg_pages env regionIndex (regs ! regionIndex) cpi0 allShops
                cpi0 (logLine INFO (RegionHeader regionIndex) w) of
           None \<Rightarrow> None
         | Some (ThrowStopped, acc, cpi, w') \<Rightarrow> Some (ThrowStopped, acc, cpi, w')
         | Some (_, acc, cpi, w') \<Rightarrow>
             fg_regions env regs (regionIndex + 1) acc cpi (fg_regionEnd env regionIndex acc w'))
      else Some (Next, allShops, cpi0, w))"
  by pat_completeness auto
termination
  by (relation "measure (\<lambda>(env, regs, r, acc, cpi, w). length regs - r)") auto

declare fg_regions.simps [simp del]

text \<open>
  After the loops the status is reset; the \<open>catch\<close> of the function only logs a stop and
  keeps the saved position.
\<close>

definition fg_finish ::
  "(signal \<times> fgShop list \<times> nat \<times> fgShop world) option \<Rightarrow> (settled \<times> fgShop world) option" where
  "fg_finish r =
     (case r of
        None \<Rightarrow> None
      | Some (ThrowStopped, acc, cpi, w) \<Rightarrow> Some (Resolved, logLine INFO Halted w)
      | Some (_, acc, cpi, w) \<Rightarrow>
          Some (Resolved, w \<lparr> scraperStatus := resetScraper (scraperStatus w) fg_id \<rparr>))"

definition scrapeFriendgolfOn ::
  "nat list \<Rightarrow> fg_env \<Rightarrow> fgShop world \<Rightarrow> (settled \<times> fgShop world) option" where
  "scrapeFriendgolfOn regs env w0 =
     (let w1 = w0 \<lparr> scraperStatus := setScraperStatus (scraperStatus w0) fg_id Running \<rparr>
      in case readProgress (progressStore w1) fg_id NonNumber of
           Inl e \<Rightarrow> Some (Rejected e, w1)
         | Inr (progress, store) \<Rightarrow>
             (let w2 = w1 \<lparr> progressStore := store \<rparr>;
                  currentRegionIndex = orDefault (currentRegionIndex (fieldsOf progress)) 0;
                  currentPageIndex = orDefault (currentPageIndex (fieldsOf progress)) 0;
                  (allShops, w3) = loadExisting w2
              in fg_finish (fg_regions env regs currentRegionIndex allShops currentPageIndex w3)))"

definition scrapeFriendgolf :: "fg_env \<Rightarrow> fgShop world \<Rightarrow> (settled \<times> fgShop world) option" where
  "scrapeFriendgolf = scrapeFriendgolfOn regions"

text \<open>
  The run from the top of the unit \<open>(regionIndex, pageIndex)\<close> to the end of the region
  loop: the rest of the district loop of that region, its end, and the regions after it.
\<close>

definition fg_fromUnit ::
  "fg_env \<Rightarrow> nat list \<Rightarrow> nat \<Rightarrow> nat \<Rightarrow> fgShop list \<Rightarrow> nat \<Rightarrow> fgShop world
     \<Rightarrow> (signal \<times> fgShop list \<times> nat \<times> fgShop world) option" where
  "fg_fromUnit env regs regionIndex pageIndex allShops cpi0 w =
     (case fg_pages env regionIndex (regs ! regionIndex) pageIndex allShops cpi0 w of
        None \<Rightarrow> None
      | Some (ThrowStopped, acc, cpi, w') \<Rightarrow> Some (ThrowStopped, acc, cpi, w')
      | Some (_, acc, cpi, w') \<Rightarrow>
          fg_regions env regs (regionIndex + 1) acc cpi (fg_regionEnd env regionIndex acc w'))"

section \<open>Resume positions\<close>

text \<open>
  Where a run started on a given world picks up: what each scraper makes of the result of
  \<open>readProgress\<close> at its start (part\_004 lines 40 to 42, citeezon.js lines 29 to 31,
  friendgolf.js lines 49 to 52). A missing record, and a record without the field, give
  the scraper's first unit.
\<close>

definition theK_resumeIndex :: "'r world \<Rightarrow> nat" where
  "theK_resumeIndex w =
     (case readProgress (progressStore w) theK_id NonNumber of
        Inl e \<Rightarrow> 0
      | Inr (progress, store) \<Rightarrow> orDefault (currentShopIndex (fieldsOf progress)) 0)"

definition cz_resumePage :: "'r world \<Rightarrow> nat" where
  "cz_resumePage w =
     (case readProgress (progressStore w) cz_name NonNumber of
        Inl e \<Rightarrow> 1
      | Inr (progress, store) \<Rightarrow>
          (case currentPage (fieldsOf progress) of
             None \<Rightarrow> 1 | Some q \<Rightarrow> if q = 0 then 1 else q))"

definition fg_resumeRegion :: "'r world \<Rightarrow> nat" where
  "fg_resumeRegion w =
     (case readProgress (progressStore w) fg_id NonNumber of
        Inl e \<Rightarrow> 0
      | Inr (progress, store) \<Rightarrow> orDefault (currentRegionIndex (fieldsOf progress)) 0)"

definition fg_resumePage :: "'r world \<Rightarrow> nat" where
  "fg_resumePage w =
     (case readProgress (progressStore w) fg_id NonNumber of
        Inl e \<Rightarrow> 0
      | Inr (progress, store) \<Rightarrow> orDefault (currentPageIndex (fieldsOf progress)) 0)"

text \<open>The records in the output file, as a set; an absent or unreadable file holds none.\<close>

definition records :: "'r world \<Rightarrow> 'r set" where
  "records w = (case outputFile w of Some (Json xs) \<Rightarrow> set xs | _ \<Rightarrow> {})"

text \<open>The lines a run has added to the log.\<close>

definition newLines :: "'r world \<Rightarrow> 'r world \<Rightarrow> (level \<times> msg) list" where
  "newLines before after = drop (length (log before)) (log after)"

section \<open>Notions used in the statements about stopping and resuming\<close>

text \<open>
  A round of the button loop, and a unit, in which a stop request arrives; a round, and a
  unit, in which a write to the output file fails.
\<close>

fun stepStops :: "more_step \<Rightarrow> bool" where
  "stepStops (ClickFails stopArrives) = stopArrives"
| "stepStops (MoreShops newShops writeFailed stopArrives) = stopArrives"
| "stepStops _ = False"

fun stepWriteFails :: "more_step \<Rightarrow> bool" where
  "stepWriteFails (MoreShops newShops writeFailed stopArrives) = writeFailed"
| "stepWriteFails _ = False"

fun unitStops :: "fg_unit \<Rightarrow> bool" where
  "unitStops (Results shops writeFailed steps) = (\<exists>n. stepStops (steps n))"
| "unitStops _ = False"

fun unitWriteFails :: "fg_unit \<Rightarrow> bool" where
  "unitWriteFails (Results shops writeFailed steps) =
     (writeFailed \<or> (\<exists>n. stepWriteFails (steps n)))"
| "unitWriteFails _ = False"

text \<open>
  A stop request is seen inside a unit when it arrives before a poll that the button loop
  reaches: the rounds before it have all gone on to the next round.
\<close>

fun continues :: "more_step \<Rightarrow> bool" where
  "continues (ClickFails stopArrives) = True"
| "continues (MoreShops newShops writeFailed stopArrives) = True"
| "continues _ = False"

fun stopSeenInside :: "fg_unit \<Rightarrow> bool" where
  "stopSeenInside (Results shops writeFailed steps) =
     (\<exists>k. stepStops (steps k) \<and> (\<forall>m<k. continues (steps m)))"
| "stopSeenInside _ = False"

text \<open>
  Two worlds that agree on the output file and on the status registry; they may differ in
  the checkpoint store and in the log.
\<close>

definition sameDisk :: "'r world \<Rightarrow> 'r world \<Rightarrow> bool" where
  "sameDisk w w' = (outputFile w = outputFile w' \<and> scraperStatus w = scraperStatus w')"

text \<open>
  The world once a scraper has set its status to \<open>running\<close> and called \<open>readProgress\<close>,
  which stores the default record when there was none.
\<close>

definition afterRead :: "string \<Rightarrow> 'r world \<Rightarrow> 'r world" where
  "afterRead i w =
     w \<lparr> scraperStatus := setScraperStatus (scraperStatus w) i Running,
         progressStore :=
           (case readProgress (progressStore w) i NonNumber of
              Inl e \<Rightarrow> progressStore w | Inr (p, st) \<Rightarrow> st) \<rparr>"

section \<open>Test fixtures\<close>

text \<open>An operation that times out on its first two calls and then succeeds; its state
  counts the calls.\<close>

definition flaky :: "nat \<Rightarrow> (string + nat) \<times> nat" where
  "flaky n = (if n < 2 then Inl ''timeout'' else Inr (n * 10), Suc n)"

text \<open>A world in which nothing has been stored, written or logged.\<close>

definition emptyWorld :: "'r world" where
  "emptyWorld = \<lparr> progressStore = Map.empty, scraperStatus = Map.empty, outputFile = None,
     progressFiles = {}, log = [] \<rparr>"

text \<open>
  Three shops; the request for the second succeeds, the others throw; a stop request
  arrives before the third is polled.
\<close>

definition shopA :: shop where
  "shopA = \<lparr> shopId = Some ''7'', shopName = ''A'' \<rparr>"

definition theK_flaky :: theK_env where
  "theK_flaky = \<lparr> inputFile = Some (Json [shopA, shopA, shopA]), stopRequest = (\<lambda>i. i = 2),
     detail = (\<lambda>i. if i = 1 then Detail [(''P3'', ''4'')] else PostThrows),
     writeFails = (\<lambda>i. False), finalWriteFails = False \<rparr>"

text \<open>A site on which no search shows results; a stop request arrives before district 3.\<close>

definition fg_stopping :: fg_env where
  "fg_stopping = \<lparr> fg_stopAtUnit = (\<lambda>r p. p = 3), fg_unit = (\<lambda>r p. ResultsTimeout),
     fg_regionWriteFails = (\<lambda>r. False) \<rparr>"

text \<open>Sites whose every page is empty.\<close>

definition ok_noData :: ok_env where
  "ok_noData = \<lparr> ok_stopAtPage = (\<lambda>p. False), ok_stopAtStore = (\<lambda>p j. False),
     ok_page = (\<lambda>p. Rows []), ok_writeFails = (\<lambda>p j. False) \<rparr>"

definition ok_vars0 :: ok_vars where
  "ok_vars0 = \<lparr> v_isStopping = False, v_allStores = [], v_processedIndexes = [],
     v_progress = emptyObject \<rparr>"

definition cz_noData :: cz_env where
  "cz_noData = \<lparr> chromiumFound = True, stopSignal = (\<lambda>p. False),
     listing = (\<lambda>p. Extracted []), cz_writeThrows = (\<lambda>p. False) \<rparr>"

text \<open>A site whose every page shows the same one valid row; nobody asks to stop.\<close>

definition rowA :: row where
  "rowA = \<lparr> number = 1, storeName = ''A'', phoneNumber = ''02-1234-5678'', address = ''Seoul'',
     imgSrc = ''/img/new_icon2_3.gif'' \<rparr>"

definition ok_twoPages :: ok_env where
  "ok_twoPages = \<lparr> ok_stopAtPage = (\<lambda>p. False), ok_stopAtStore = (\<lambda>p j. False),
     ok_page = (\<lambda>p. Rows [rowA]), ok_writeFails = (\<lambda>p j. False) \<rparr>"


text \<open>A site whose first page throws and whose other pages are empty.\<close>

definition cz_firstPageFails :: cz_env where
  "cz_firstPageFails = \<lparr> chromiumFound = True, stopSignal = (\<lambda>p. False),
     listing = (\<lambda>p. if p = 1 then PageThrows else Extracted []),
     cz_writeThrows = (\<lambda>p. False) \<rparr>"

text \<open>
  Runs without a stop request: three different shops whose requests all succeed; the
  same with the write after the first shop failing; a site on which districts 1 and 5
  each show one shop and the button loop ends at once.
\<close>

definition shopB :: shop where
  "shopB = \<lparr> shopId = Some ''8'', shopName = ''B'' \<rparr>"

definition shopC :: shop where
  "shopC = \<lparr> shopId = Some ''9'', shopName = ''C'' \<rparr>"

definition theK_steady :: theK_env where
  "theK_steady = \<lparr> inputFile = Some (Json [shopA, shopB, shopC]), stopRequest = (\<lambda>i. False),
     detail = (\<lambda>i. Detail [(''P3'', ''4'')]),
     writeFails = (\<lambda>i. False), finalWriteFails = False \<rparr>"

definition theK_lostWrite :: theK_env where
  "theK_lostWrite = theK_steady \<lparr> writeFails := (\<lambda>i. i = 0) \<rparr>"

definition fgShopA :: fgShop where
  "fgShopA = \<lparr> fgName = Some ''A'', fgAddress = Some ''Seoul'', fgTel = None,
     fgShopId = Some ''12'' \<rparr>"

definition fgShopB :: fgShop where
  "fgShopB = \<lparr> fgName = Some ''B'', fgAddress = Some ''Seoul'', fgTel = None,
     fgShopId = Some ''15'' \<rparr>"

definition fg_quiet :: fg_env where
  "fg_quiet = \<lparr> fg_stopAtUnit = (\<lambda>r p. False),
     fg_unit = (\<lambda>r p. if p = 1 then Results [fgShopA] False (\<lambda>n. ButtonGone)
                      else if p = 5 then Results [fgShopB] False (\<lambda>n. ButtonHidden)
                      else ResultsTimeout),
     fg_regionWriteFails = (\<lambda>r. False) \<rparr>"


section \<open>Properties of the validators\<close>

lemma rests_Digit_iff: "t \<in> set (rests Digit s) \<longleftrightarrow> (\<exists>c. isDigit c \<and> s = c # t)"
  by (cases s) auto

lemma rests_Chr_iff: "t \<in> set (rests (Chr a) s) \<longleftrightarrow> s = a # t"
  by (cases s) auto

lemma iter_Digit_iff:
  "t \<in> set (iter (\<lambda>t. rests Digit t) k s) \<longleftrightarrow> (\<exists>u. length u = k \<and> digits u \<and> s = u @ t)"
proof (induction k arbitrary: s)
  case 0
  then show ?case by (auto simp: digits_def)
next
  case (Suc k)
  show ?case
  proof
    assume "t \<in> set (iter (\<lambda>t. rests Digit t) (Suc k) s)"
    then obtain s' where s': "s' \<in> set (rests Digit s)" and t: "t \<in> set (iter (\<lambda>t. rests Digit t) k s')"
      by auto
    from s' obtain c where c: "isDigit c" "s = c # s'" by (auto simp: rests_Digit_iff)
    from t Suc.IH obtain u where u: "length u = k" "digits u" "s' = u @ t" by blast
    have "length (c # u) = Suc k \<and> digits (c # u) \<and> s = (c # u) @ t"
      using c u by (simp add: digits_def)
    then show "\<exists>u. length u = Suc k \<and> digits u \<and> s = u @ t" by blast
  next
    assume "\<exists>u. length u = Suc k \<and> digits u \<and> s = u @ t"
    then obtain u where u: "length u = Suc k" "digits u" "s = u @ t" by blast
    then obtain c u' where cu: "u = c # u'" by (cases u) auto
    have "u' @ t \<in> set (rests Digit s)" using u cu by (simp add: digits_def)
    moreover have "t \<in> set (iter (\<lambda>t. rests Digit t) k (u' @ t))"
      using Suc.IH [of "u' @ t"] u cu by (auto simp: digits_def)
    ultimately show "t \<in> set (iter (\<lambda>t. rests Digit t) (Suc k) s)" by auto
  qed
qed

lemma rests_Times_Digit_iff:
  "t \<in> set (rests (Times m n Digit) s) \<longleftrightarrow>
     (\<exists>u. m \<le> length u \<and> length u \<le> n \<and> digits u \<and> s = u @ t)"
  by (auto simp: iter_Digit_iff)

lemma rests_ThenI:
  "m \<in> set (rests r1 s) \<Longrightarrow> t \<in> set (rests r2 m) \<Longrightarrow> t \<in> set (rests (Then r1 r2) s)"
  by auto

lemma rests_ThenE:
  "t \<in> set (rests (Then r1 r2) s) \<Longrightarrow> \<exists>m. m \<in> set (rests r1 s) \<and> t \<in> set (rests r2 m)"
  by auto

lemma regex_test_phoneRegex: "regex_test phoneRegex p \<longleftrightarrow> phone_pattern p"
proof
  assume "regex_test phoneRegex p"
  then have "[] \<in> set (rests phoneRegex p)" by (simp add: regex_test_def)
  then obtain t1 where t1: "t1 \<in> set (rests (Times 2 3 Digit) p)"
      and r1: "[] \<in> set (rests (Then (Chr CHR ''-'') (Then (Times 3 4 Digit)
                (Then (Chr CHR ''-'') (Times 4 4 Digit)))) t1)"
    unfolding phoneRegex_def using rests_ThenE by blast
  from r1 obtain t2 where t2: "t2 \<in> set (rests (Chr CHR ''-'') t1)"
      and r2: "[] \<in> set (rests (Then (Times 3 4 Digit) (Then (Chr CHR ''-'') (Times 4 4 Digit))) t2)"
    using rests_ThenE by blast
  from r2 obtain t3 where t3: "t3 \<in> set (rests (Times 3 4 Digit) t2)"
      and r3: "[] \<in> set (rests (Then (Chr CHR ''-'') (Times 4 4 Digit)) t3)"
    using rests_ThenE by blast
  from r3 obtain t4 where t4: "t4 \<in> set (rests (Chr CHR ''-'') t3)"
      and r4: "[] \<in> set (rests (Times 4 4 Digit) t4)"
    using rests_ThenE by blast
  from t1 t2 t3 t4 r4
  have "t1 \<in> set (rests (Times 2 3 Digit) p)" "t2 \<in> set (rests (Chr CHR ''-'') t1)"
    "t3 \<in> set (rests (Times 3 4 Digit) t2)" "t4 \<in> set (rests (Chr CHR ''-'') t3)"
    "[] \<in> set (rests (Times 4 4 Digit) t4)"
    by blast+
  then obtain a b c where
    "2 \<le> length a" "length a \<le> 3" "digits a" "p = a @ t1" "t1 = CHR ''-'' # t2"
    "3 \<le> length b" "length b \<le> 4" "digits b" "t2 = b @ t3" "t3 = CHR ''-'' # t4"
    "4 \<le> length c" "length c \<le> 4" "digits c" "t4 = c @ []"
    unfolding rests_Times_Digit_iff rests_Chr_iff by blast
  then have "p = a @ ''-'' @ b @ ''-'' @ c \<and> digits a \<and> (length a = 2 \<or> length a = 3)
        \<and> digits b \<and> (length b = 3 \<or> length b = 4) \<and> digits c \<and> length c = 4"
    by auto
  then show "phone_pattern p" unfolding phone_pattern_def by blast
next
  assume "phone_pattern p"
  then obtain a b c where abc: "p = a @ ''-'' @ b @ ''-'' @ c" "digits a" "length a = 2 \<or> length a = 3"
     "digits b" "length b = 3 \<or> length b = 4" "digits c" "length c = 4"
    unfolding phone_pattern_def by blast
  have 1: "''-'' @ b @ ''-'' @ c \<in> set (rests (Times 2 3 Digit) p)"
    unfolding rests_Times_Digit_iff using abc by (intro exI [of _ a]) auto
  have 2: "b @ ''-'' @ c \<in> set (rests (Chr CHR ''-'') (''-'' @ b @ ''-'' @ c))"
    unfolding rests_Chr_iff by simp
  have 3: "''-'' @ c \<in> set (rests (Times 3 4 Digit) (b @ ''-'' @ c))"
    unfolding rests_Times_Digit_iff using abc by (intro exI [of _ b]) auto
  have 4: "c \<in> set (rests (Chr CHR ''-'') (''-'' @ c))"
    unfolding rests_Chr_iff by simp
  have 5: "[] \<in> set (rests (Times 4 4 Digit) c)"
    unfolding rests_Times_Digit_iff using abc by (intro exI [of _ c]) auto
  have "[] \<in> set (rests (Then (Chr CHR ''-'') (Times 4 4 Digit)) (''-'' @ c))"
    using 4 5 rests_ThenI by blast
  then have "[] \<in> set (rests (Then (Times 3 4 Digit) (Then (Chr CHR ''-'') (Times 4 4 Digit)))
                (b @ ''-'' @ c))"
    using 3 rests_ThenI by blast
  then have "[] \<in> set (rests (Then (Chr CHR ''-'') (Then (Times 3 4 Digit)
                (Then (Chr CHR ''-'') (Times 4 4 Digit)))) (''-'' @ b @ ''-'' @ c))"
    using 2 rests_ThenI by blast
  then have "[] \<in> set (rests phoneRegex p)"
    unfolding phoneRegex_def using 1 rests_ThenI by blast
  then show "regex_test phoneRegex p"
    by (simp add: regex_test_def)
qed


text \<open>
  C8. Phone validation boundary: the validator accepts a string exactly when it is two or
  three digits, a hyphen, three or four digits, a hyphen and four digits, or the literal
  hyphen, or the empty string. "02-1234-5678" is accepted, "02-12-5678" is rejected, the
  empty string and "-" are accepted.
\<close>

theorem phone_validation_boundary:
  "(isValidPhoneNumber p \<longleftrightarrow> phone_pattern p \<or> p = ''-'' \<or> p = '''')
   \<and> isValidPhoneNumber ''02-1234-5678''
   \<and> \<not> isValidPhoneNumber ''02-12-5678''
   \<and> isValidPhoneNumber '''' \<and> isValidPhoneNumber ''-''"
proof -
  have "isValidPhoneNumber p \<longleftrightarrow> phone_pattern p \<or> p = ''-'' \<or> p = ''''"
    by (auto simp: isValidPhoneNumber_def regex_test_phoneRegex)
  moreover have "isValidPhoneNumber ''02-1234-5678''"
    by code_simp
  moreover have "\<not> isValidPhoneNumber ''02-12-5678''"
    by code_simp
  moreover have "isValidPhoneNumber '''' \<and> isValidPhoneNumber ''-''"
    by (simp add: isValidPhoneNumber_def)
  ultimately show ?thesis by blast
qed

section \<open>Properties of the retry helper\<close>

text \<open>
  C5. Retry policy with the default limit: when all three calls throw, the operation has
  been called exactly three times, with a warning and a sleep of 1000 ms after the first
  and after the second call, and the third error is thrown; when the first, second or
  third call returns, its value is returned, no further call is made, and nothing of the
  failed calls is part of the result.
\<close>

theorem retry_policy:
  fixes fn :: "'s \<Rightarrow> ('e + 'a) \<times> 's"
  shows
  "(fn s0 = (Inl e1, s1) \<and> fn s1 = (Inl e2, s2) \<and> fn s2 = (Inl e3, s3) \<longrightarrow>
      retry fn None s0 =
        (Threw e3, s3, [Invoked, Warned 1 3 e1, Slept 1000,
                        Invoked, Warned 2 3 e2, Slept 1000, Invoked]))
   \<and> (fn s0 = (Inr v, s1) \<longrightarrow> retry fn None s0 = (Returned v, s1, [Invoked]))
   \<and> (fn s0 = (Inl e1, s1) \<and> fn s1 = (Inr v, s2) \<longrightarrow>
      retry fn None s0 = (Returned v, s2, [Invoked, Warned 1 3 e1, Slept 1000, Invoked]))
   \<and> (fn s0 = (Inl e1, s1) \<and> fn s1 = (Inl e2, s2) \<and> fn s2 = (Inr v, s3) \<longrightarrow>
      retry fn None s0 =
        (Returned v, s3, [Invoked, Warned 1 3 e1, Slept 1000,
                          Invoked, Warned 2 3 e2, Slept 1000, Invoked]))"
  by (simp add: retry_def retry_from.simps)

theorem retry_policy_witness:
  "retry flaky None 0 = (Returned 20, 3, [Invoked, Warned 1 3 ''timeout'', Slept 1000,
                          Invoked, Warned 2 3 ''timeout'', Slept 1000, Invoked])"
  using retry_policy [of flaky 0 "''timeout''" 1 "''timeout''" 2 "''timeout''" 3 20]
  by (simp add: flaky_def)

section \<open>Properties of the checkpoint store\<close>

text \<open>
  C9, as the code has it. For a task name that is no own property of the store and that
  the prototype chain does not resolve, \<open>readProgress\<close> returns a record with
  \<open>lastProcessedRegionIndex\<close> 0, with \<open>regionsProgress\<close> an array of zeros whose length is
  the second argument (the one-element array when that argument is no number), and with
  no other field. The record is the same for every task name: the index that a job
  counts with (\<open>currentShopIndex\<close>, \<open>currentPage\<close>, ...) is absent, not zero. A second
  argument that is a number but no array length makes the call throw a RangeError.
\<close>

theorem checkpoint_default_on_read:
  assumes "store taskName = None" and "\<not> inherited store taskName"
  shows "(0 \<le> n \<and> n < 2 ^ 32 \<longrightarrow>
           (\<exists>p store'. readProgress store taskName (Num n) = Inr (Record p, store')
              \<and> lastProcessedRegionIndex p = Some 0
              \<and> regionsProgress p = Some (replicate (nat n) 0)
              \<and> currentShopIndex p = None \<and> currentRegionIndex p = None
              \<and> currentPageIndex p = None \<and> currentPage p = None
              \<and> processedIndexes p = None))
       \<and> (\<exists>p store'. readProgress store taskName NonNumber = Inr (Record p, store')
              \<and> lastProcessedRegionIndex p = Some 0 \<and> regionsProgress p = Some [0]
              \<and> currentShopIndex p = None \<and> currentRegionIndex p = None
              \<and> currentPageIndex p = None \<and> currentPage p = None
              \<and> processedIndexes p = None)
       \<and> (\<not> (0 \<le> n \<and> n < 2 ^ 32) \<longrightarrow> readProgress store taskName (Num n) = Inl RangeError)
       \<and> readProgress store taskName NonIntegral = Inl RangeError"
  using assms by (simp add: readProgress_def emptyObject_def Let_def)

theorem checkpoint_default_on_read_witness:
  "(\<exists>p store'. readProgress [''citeezon'' \<mapsto> emptyObject \<lparr> currentPage := Some 4 \<rparr>]
                  ''thekgolf'' (Num 3) = Inr (Record p, store')
      \<and> lastProcessedRegionIndex p = Some 0 \<and> regionsProgress p = Some [0, 0, 0]
      \<and> currentShopIndex p = None)
   \<and> (\<exists>p store'. readProgress [''citeezon'' \<mapsto> emptyObject \<lparr> currentPage := Some 4 \<rparr>]
                  ''thekgolf'' NonNumber = Inr (Record p, store')
      \<and> lastProcessedRegionIndex p = Some 0 \<and> regionsProgress p = Some [0]
      \<and> currentShopIndex p = None)"
proof -
  let ?store = "[''citeezon'' \<mapsto> emptyObject \<lparr> currentPage := Some 4 \<rparr>]"
  have a: "?store ''thekgolf'' = None" by simp
  have b: "\<not> inherited ?store ''thekgolf''"
    by (simp add: inherited_def objectPrototype_def)
  have c: "replicate (nat 3) (0::nat) = [0, 0, 0]" by (simp add: numeral_3_eq_3)
  from checkpoint_default_on_read [OF a b, of 3] c show ?thesis by auto
qed

text \<open>
  The claim C9 as stated fails. The default is not specific to the job: on an empty store
  the detail scraper of thekgolf and the scraper of citeezon receive the same record,
  which has neither \<open>currentShopIndex\<close> nor \<open>currentPage\<close>. And a name that every object
  inherits has no default at all: the inherited value is returned.
\<close>

theorem default_is_the_same_for_every_job:
  "readProgress Map.empty ''thekgolf'' NonNumber =
     Inr (Record \<lparr> lastProcessedRegionIndex = Some 0, regionsProgress = Some [0],
                   currentShopIndex = None, currentRegionIndex = None,
                   currentPageIndex = None, currentPage = None, processedIndexes = None \<rparr>,
          [''thekgolf'' \<mapsto>
             \<lparr> lastProcessedRegionIndex = Some 0, regionsProgress = Some [0],
               currentShopIndex = None, currentRegionIndex = None,
               currentPageIndex = None, currentPage = None, processedIndexes = None \<rparr>])
   \<and> readProgress Map.empty ''citeezon'' NonNumber =
     Inr (Record \<lparr> lastProcessedRegionIndex = Some 0, regionsProgress = Some [0],
                   currentShopIndex = None, currentRegionIndex = None,
                   currentPageIndex = None, currentPage = None, processedIndexes = None \<rparr>,
          [''citeezon'' \<mapsto>
             \<lparr> lastProcessedRegionIndex = Some 0, regionsProgress = Some [0],
               currentShopIndex = None, currentRegionIndex = None,
               currentPageIndex = None, currentPage = None, processedIndexes = None \<rparr>])
   \<and> readProgress Map.empty ''constructor'' NonNumber = Inr (Inherited ''constructor'', Map.empty)"
  by (simp add: readProgress_def inherited_def objectPrototype_def emptyObject_def Let_def)



subsection \<open>The store at the ids of the scrapers\<close>

text \<open>
  The ids that the scrapers pass are no inherited names, whatever the store holds; for
  them a lookup sees the own properties only.
\<close>

lemma jobIds_not_inherited [simp]:
  "\<not> inherited store theK_id" "\<not> inherited store cz_name" "\<not> inherited store ok_id"
  "\<not> inherited store fz_id" "\<not> inherited store fg_id"
  by (simp_all add: inherited_def objectPrototype_def truthyField_def theK_id_def cz_name_def
      ok_id_def fz_id_def fg_id_def split: option.split)

lemma readProgress_NonNumber:
  "\<exists>p st. readProgress store i NonNumber = Inr (p, st)"
  by (simp add: readProgress_def Let_def split: option.split)

lemma readProgress_cases:
  "\<not> inherited store i \<Longrightarrow>
   readProgress store i NonNumber =
     (case store i of
        None \<Rightarrow> Inr (Record (emptyObject \<lparr> lastProcessedRegionIndex := Some 0,
                                            regionsProgress := Some [0] \<rparr>),
                    store(i \<mapsto> emptyObject \<lparr> lastProcessedRegionIndex := Some 0,
                                              regionsProgress := Some [0] \<rparr>))
      | Some p \<Rightarrow> Inr (Record p, store))"
  by (simp add: readProgress_def Let_def split: option.split)

lemma theK_resumeIndex_eq:
  "theK_resumeIndex w =
     (case progressStore w theK_id of None \<Rightarrow> 0 | Some p \<Rightarrow> orDefault (currentShopIndex p) 0)"
  by (simp add: theK_resumeIndex_def readProgress_cases emptyObject_def orDefault_def
      split: option.split)

lemma cz_resumePage_eq:
  "cz_resumePage w =
     (case progressStore w cz_name of
        None \<Rightarrow> 1
      | Some p \<Rightarrow> (case currentPage p of None \<Rightarrow> 1 | Some q \<Rightarrow> if q = 0 then 1 else q))"
  by (simp add: cz_resumePage_def readProgress_cases emptyObject_def split: option.split)

lemma fg_resumeRegion_eq:
  "fg_resumeRegion w =
     (case progressStore w fg_id of None \<Rightarrow> 0 | Some p \<Rightarrow> orDefault (currentRegionIndex p) 0)"
  by (simp add: fg_resumeRegion_def readProgress_cases emptyObject_def orDefault_def
      split: option.split)

lemma fg_resumePage_eq:
  "fg_resumePage w =
     (case progressStore w fg_id of None \<Rightarrow> 0 | Some p \<Rightarrow> orDefault (currentPageIndex p) 0)"
  by (simp add: fg_resumePage_def readProgress_cases emptyObject_def orDefault_def
      split: option.split)

section \<open>Properties of the scrape loops\<close>

subsection \<open>Stop requests\<close>

lemma status_after_arrive:
  "getScraperStatus (scraperStatus (arrive b i w)) i = Stopped \<longleftrightarrow>
     b \<or> getScraperStatus (scraperStatus w) i = Stopped"
  by (simp add: arrive_def stopScraper_def setScraperStatus_def getScraperStatus_def)

lemma reset_after_arrive:
  "getScraperStatus (scraperStatus (arrive b i w)) i = Stopped \<Longrightarrow>
   resetScraper (scraperStatus (arrive b i w)) i = (scraperStatus w)(i \<mapsto> Idle)"
  by (auto simp: arrive_def stopScraper_def setScraperStatus_def resetScraper_def)

lemma arrive_fields [simp]:
  "progressStore (arrive b i w) = progressStore w"
  "outputFile (arrive b i w) = outputFile w"
  "progressFiles (arrive b i w) = progressFiles w"
  "log (arrive b i w) = log w"
  by (simp_all add: arrive_def)

lemma theK_stop:
  assumes "shopIndex < length shops"
    and "getScraperStatus (scraperStatus (arrive (stopRequest env shopIndex) theK_id w)) theK_id
           = Stopped"
  shows "theK_finish env (theK_loop env shops shopIndex acc w) =
           w \<lparr> progressStore :=
                 (progressStore w)(theK_id \<mapsto> emptyObject \<lparr> currentShopIndex := Some shopIndex \<rparr>),
               scraperStatus := (scraperStatus w)(theK_id \<mapsto> Idle),
               log := log w @ [(INFO, UnitHeader shopIndex), (INFO, StopSignal), (INFO, Halted)] \<rparr>"
proof -
  let ?w = "arrive (stopRequest env shopIndex) theK_id w"
  have "theK_body env shops shopIndex acc ?w =
          (ThrowStopped, acc,
           ?w \<lparr> log := log w @ [(INFO, UnitHeader shopIndex), (INFO, StopSignal)],
                progressStore :=
                  (progressStore w)(theK_id \<mapsto> emptyObject \<lparr> currentShopIndex := Some shopIndex \<rparr>),
                scraperStatus := (scraperStatus w)(theK_id \<mapsto> Idle) \<rparr>)"
    using assms(2) reset_after_arrive [OF assms(2)]
    by (simp add: theK_body_def theK_position_def logLine_def saveProgress_def Let_def)
  then show ?thesis
    using assms(1)
    by (simp add: theK_loop.simps [of env shops shopIndex] theK_finish_def logLine_def arrive_def)
qed

lemma fg_stop_unit:
  assumes "regionIndex < length regs" and "pageIndex < regs ! regionIndex"
    and "getScraperStatus
           (scraperStatus (arrive (fg_stopAtUnit env regionIndex pageIndex) fg_id w)) fg_id
           = Stopped"
  shows "fg_finish (fg_fromUnit env regs regionIndex pageIndex allShops cpi w) =
           Some (Resolved,
             w \<lparr> progressStore :=
                   (progressStore w)(fg_id \<mapsto>
                      emptyObject \<lparr> currentRegionIndex := Some regionIndex,
                                    currentPageIndex := Some pageIndex \<rparr>),
                 scraperStatus := (scraperStatus w)(fg_id \<mapsto> Idle),
                 log := log w @ [(INFO, UnitHeader pageIndex), (INFO, StopSignal), (INFO, Halted)] \<rparr>)"
proof -
  let ?w = "arrive (fg_stopAtUnit env regionIndex pageIndex) fg_id w"
  have "fg_body env regionIndex pageIndex allShops cpi ?w =
          Some (ThrowStopped, allShops, cpi,
           ?w \<lparr> log := log w @ [(INFO, UnitHeader pageIndex), (INFO, StopSignal)],
                progressStore :=
                  (progressStore w)(fg_id \<mapsto>
                     emptyObject \<lparr> currentRegionIndex := Some regionIndex,
                                   currentPageIndex := Some pageIndex \<rparr>),
                scraperStatus := (scraperStatus w)(fg_id \<mapsto> Idle) \<rparr>)"
    using assms(3) reset_after_arrive [OF assms(3)]
    by (simp add: fg_body_def fg_stop_def fg_position_def logLine_def saveProgress_def Let_def)
  then show ?thesis
    using assms(1,2)
    by (simp add: fg_fromUnit_def fg_pages.simps [of env regionIndex _ pageIndex]
        fg_finish_def logLine_def arrive_def)
qed

text \<open>
  C3. Cancellation postcondition (scrapeTheKgolf, scrapeFriendgolf): when the registry
  reads \<open>stopped\<close> at the top of a unit, the run saves a progress record that points at
  that unit (the record \<open>{ currentShopIndex: shopIndex }\<close>, respectively
  \<open>{ currentRegionIndex: regionIndex, currentPageIndex: pageIndex }\<close>, from which a later
  run resumes at exactly that unit), keeps it, sets the status to \<open>idle\<close>, and ends: the
  output file is as it was and the log shows the header of the unit, the stop and the
  halt, nothing else.
\<close>

theorem cancellation_postcondition:
  "(shopIndex < length shops
      \<and> getScraperStatus (scraperStatus (arrive (stopRequest env shopIndex) theK_id w)) theK_id
          = Stopped
    \<longrightarrow> theK_finish env (theK_loop env shops shopIndex acc w) =
           w \<lparr> progressStore :=
                 (progressStore w)(theK_id \<mapsto> emptyObject \<lparr> currentShopIndex := Some shopIndex \<rparr>),
               scraperStatus := (scraperStatus w)(theK_id \<mapsto> Idle),
               log := log w @ [(INFO, UnitHeader shopIndex), (INFO, StopSignal), (INFO, Halted)] \<rparr>
       \<and> theK_resumeIndex (theK_finish env (theK_loop env shops shopIndex acc w)) = shopIndex)
   \<and> (regionIndex < length regs \<and> pageIndex < regs ! regionIndex
      \<and> getScraperStatus
           (scraperStatus (arrive (fg_stopAtUnit fenv regionIndex pageIndex) fg_id fw)) fg_id
          = Stopped
    \<longrightarrow> (\<exists>fw'. fg_finish (fg_fromUnit fenv regs regionIndex pageIndex allShops cpi fw)
                  = Some (Resolved, fw')
            \<and> fw' = fw \<lparr> progressStore :=
                           (progressStore fw)(fg_id \<mapsto>
                              emptyObject \<lparr> currentRegionIndex := Some regionIndex,
                                            currentPageIndex := Some pageIndex \<rparr>),
                         scraperStatus := (scraperStatus fw)(fg_id \<mapsto> Idle),
                         log := log fw @ [(INFO, UnitHeader pageIndex), (INFO, StopSignal),
                                          (INFO, Halted)] \<rparr>
            \<and> fg_resumeRegion fw' = regionIndex \<and> fg_resumePage fw' = pageIndex))"
proof (intro conjI impI)
  assume h: "shopIndex < length shops
      \<and> getScraperStatus (scraperStatus (arrive (stopRequest env shopIndex) theK_id w)) theK_id
          = Stopped"
  then show e: "theK_finish env (theK_loop env shops shopIndex acc w) =
           w \<lparr> progressStore :=
                 (progressStore w)(theK_id \<mapsto> emptyObject \<lparr> currentShopIndex := Some shopIndex \<rparr>),
               scraperStatus := (scraperStatus w)(theK_id \<mapsto> Idle),
               log := log w @ [(INFO, UnitHeader shopIndex), (INFO, StopSignal), (INFO, Halted)] \<rparr>"
    using theK_stop by blast
  show "theK_resumeIndex (theK_finish env (theK_loop env shops shopIndex acc w)) = shopIndex"
    unfolding e by (simp add: theK_resumeIndex_eq orDefault_def)
next
  assume h: "regionIndex < length regs \<and> pageIndex < regs ! regionIndex
      \<and> getScraperStatus
           (scraperStatus (arrive (fg_stopAtUnit fenv regionIndex pageIndex) fg_id fw)) fg_id
          = Stopped"
  let ?fw' = "fw \<lparr> progressStore :=
                           (progressStore fw)(fg_id \<mapsto>
                              emptyObject \<lparr> currentRegionIndex := Some regionIndex,
                                            currentPageIndex := Some pageIndex \<rparr>),
                         scraperStatus := (scraperStatus fw)(fg_id \<mapsto> Idle),
                         log := log fw @ [(INFO, UnitHeader pageIndex), (INFO, StopSignal),
                                          (INFO, Halted)] \<rparr>"
  have "fg_finish (fg_fromUnit fenv regs regionIndex pageIndex allShops cpi fw)
          = Some (Resolved, ?fw')"
    using h fg_stop_unit by blast
  moreover have "fg_resumeRegion ?fw' = regionIndex \<and> fg_resumePage ?fw' = pageIndex"
    by (simp add: fg_resumeRegion_eq fg_resumePage_eq orDefault_def)
  ultimately show "\<exists>fw'. fg_finish (fg_fromUnit fenv regs regionIndex pageIndex allShops cpi fw)
                  = Some (Resolved, fw')
            \<and> fw' = fw \<lparr> progressStore :=
                           (progressStore fw)(fg_id \<mapsto>
                              emptyObject \<lparr> currentRegionIndex := Some regionIndex,
                                            currentPageIndex := Some pageIndex \<rparr>),
                         scraperStatus := (scraperStatus fw)(fg_id \<mapsto> Idle),
                         log := log fw @ [(INFO, UnitHeader pageIndex), (INFO, StopSignal),
                                          (INFO, Halted)] \<rparr>
            \<and> fg_resumeRegion fw' = regionIndex \<and> fg_resumePage fw' = pageIndex"
    by blast
qed

theorem cancellation_postcondition_witness:
  "theK_finish theK_flaky (theK_loop theK_flaky [shopA, shopA, shopA] 2 [] emptyWorld) =
     emptyWorld \<lparr> progressStore := [''thekgolf'' \<mapsto> emptyObject \<lparr> currentShopIndex := Some 2 \<rparr>],
                  scraperStatus := [''thekgolf'' \<mapsto> Idle],
                  log := [(INFO, UnitHeader 2), (INFO, StopSignal), (INFO, Halted)] \<rparr>
   \<and> theK_resumeIndex
       (theK_finish theK_flaky (theK_loop theK_flaky [shopA, shopA, shopA] 2 [] emptyWorld)) = 2
   \<and> (\<exists>fw'. fg_finish (fg_fromUnit fg_stopping regions 0 3 [] 0 emptyWorld) = Some (Resolved, fw')
        \<and> progressStore fw' =
            [''friendgolf'' \<mapsto> emptyObject \<lparr> currentRegionIndex := Some 0,
                                               currentPageIndex := Some 3 \<rparr>]
        \<and> scraperStatus fw' = [''friendgolf'' \<mapsto> Idle]
        \<and> outputFile fw' = None
        \<and> log fw' = [(INFO, UnitHeader 3), (INFO, StopSignal), (INFO, Halted)]
        \<and> fg_resumeRegion fw' = 0 \<and> fg_resumePage fw' = 3)"
proof -
  have a: "(2::nat) < length [shopA, shopA, shopA]"
    "getScraperStatus
       (scraperStatus (arrive (stopRequest theK_flaky 2) theK_id
                         (emptyWorld :: detailedShop world))) theK_id = Stopped"
    by (simp_all add: theK_flaky_def arrive_def stopScraper_def setScraperStatus_def
        getScraperStatus_def)
  have b: "(0::nat) < length regions" "(3::nat) < regions ! 0"
    "getScraperStatus
       (scraperStatus (arrive (fg_stopAtUnit fg_stopping 0 3) fg_id
                         (emptyWorld :: fgShop world))) fg_id = Stopped"
    by (simp_all add: fg_stopping_def regions_def arrive_def stopScraper_def
        setScraperStatus_def getScraperStatus_def)
  note t = cancellation_postcondition
    [of 2 "[shopA, shopA, shopA]" theK_flaky emptyWorld "[]" 0 regions 3 fg_stopping emptyWorld
        "[]" 0]
  note tk = t [THEN conjunct1, THEN mp, OF conjI, OF a]
  note tf = t [THEN conjunct2, THEN mp, OF conjI [OF b(1) conjI [OF b(2) b(3)]]]
  from tk have 1:
    "theK_finish theK_flaky (theK_loop theK_flaky [shopA, shopA, shopA] 2 [] emptyWorld) =
       emptyWorld \<lparr> progressStore :=
                      [''thekgolf'' \<mapsto> emptyObject \<lparr> currentShopIndex := Some 2 \<rparr>],
                    scraperStatus := [''thekgolf'' \<mapsto> Idle],
                    log := [(INFO, UnitHeader 2), (INFO, StopSignal), (INFO, Halted)] \<rparr>"
    by (simp add: emptyWorld_def theK_id_def)
  from tk have 2:
    "theK_resumeIndex
       (theK_finish theK_flaky (theK_loop theK_flaky [shopA, shopA, shopA] 2 [] emptyWorld)) = 2"
    by (rule conjunct2)
  from tf obtain fw' where
    "fg_finish (fg_fromUnit fg_stopping regions 0 3 [] 0 emptyWorld) = Some (Resolved, fw')"
    "fw' = (emptyWorld :: fgShop world)
             \<lparr> progressStore :=
                           (progressStore (emptyWorld :: fgShop world))(fg_id \<mapsto>
                              emptyObject \<lparr> currentRegionIndex := Some 0,
                                            currentPageIndex := Some 3 \<rparr>),
                         scraperStatus :=
                           (scraperStatus (emptyWorld :: fgShop world))(fg_id \<mapsto> Idle),
                         log := log (emptyWorld :: fgShop world)
                                  @ [(INFO, UnitHeader 3), (INFO, StopSignal), (INFO, Halted)] \<rparr>"
    "fg_resumeRegion fw' = 0" "fg_resumePage fw' = 3"
    by blast
  then have "fg_finish (fg_fromUnit fg_stopping regions 0 3 [] 0 emptyWorld) = Some (Resolved, fw')
        \<and> progressStore fw' =
            [''friendgolf'' \<mapsto> emptyObject \<lparr> currentRegionIndex := Some 0,
                                               currentPageIndex := Some 3 \<rparr>]
        \<and> scraperStatus fw' = [''friendgolf'' \<mapsto> Idle]
        \<and> outputFile fw' = None
        \<and> log fw' = [(INFO, UnitHeader 3), (INFO, StopSignal), (INFO, Halted)]
        \<and> fg_resumeRegion fw' = 0 \<and> fg_resumePage fw' = 3"
    by (simp add: emptyWorld_def fg_id_def)
  with 1 2 show ?thesis by blast
qed

subsection \<open>The persisted position and the enumeration\<close>

lemma logLine_fields [simp]:
  "log (logLine l m w) = log w @ [(l, m)]"
  "progressStore (logLine l m w) = progressStore w"
  "scraperStatus (logLine l m w) = scraperStatus w"
  "outputFile (logLine l m w) = outputFile w"
  "progressFiles (logLine l m w) = progressFiles w"
  by (simp_all add: logLine_def)

lemma writeJsonLogged_fields [simp]:
  "log (writeJsonLogged f xs w) = log w @ (if f then [(ERROR, WriteError)] else [])"
  "progressStore (writeJsonLogged f xs w) = progressStore w"
  "scraperStatus (writeJsonLogged f xs w) = scraperStatus w"
  "outputFile (writeJsonLogged f xs w) = (if f then outputFile w else Some (Json xs))"
  "progressFiles (writeJsonLogged f xs w) = progressFiles w"
  by (simp_all add: writeJsonLogged_def)

lemma fg_stop_fields [simp]:
  "log (fg_stop r p w) = log w @ [(INFO, StopSignal)]"
  "progressStore (fg_stop r p w) = (progressStore w)(fg_id \<mapsto> fg_position r p)"
  "scraperStatus (fg_stop r p w) = (scraperStatus w)(fg_id \<mapsto> Idle)"
  "outputFile (fg_stop r p w) = outputFile w"
  "progressFiles (fg_stop r p w) = progressFiles w"
  by (simp_all add: fg_stop_def Let_def saveProgress_def resetScraper_def setScraperStatus_def)

lemmas fg_more_induct = fg_more.raw_induct [rotated 1, consumes 1, case_names round]

lemma fg_more_facts:
  assumes "fg_more r p steps n acc w = Some y"
  shows "(\<exists>ls. log (snd (snd y)) = log w @ ls)
       \<and> (fst y = ThrowStopped \<longrightarrow>
            progressStore (snd (snd y)) = (progressStore w)(fg_id \<mapsto> fg_position r p))
       \<and> (fst y \<noteq> ThrowStopped \<longrightarrow> progressStore (snd (snd y)) = progressStore w)"
  using assms
proof (induction r p steps n acc w y rule: fg_more_induct)
  case (round more r p steps n acc w y)
  show ?case
  proof (cases "steps n")
    case ButtonGone
    with round(2) show ?thesis by auto
  next
    case ButtonHidden
    with round(2) show ?thesis by auto
  next
    case ProbeThrows
    with round(2) show ?thesis by auto
  next
    case (ClickFails stop)
    let ?w1 = "arrive stop fg_id (logLine ERROR MoreClickFailed w)"
    show ?thesis
    proof (cases "getScraperStatus (scraperStatus ?w1) fg_id = Stopped")
      case True
      with round(2) ClickFails have "y = (ThrowStopped, acc, fg_stop r p ?w1)"
        by (simp add: Let_def)
      then show ?thesis by simp
    next
      case False
      with round(2) ClickFails have "more r p steps (n + 1) acc ?w1 = Some y"
        by (simp add: Let_def)
      from round(1) [OF this] obtain ls where
        "log (snd (snd y)) = log ?w1 @ ls"
        "fst y = ThrowStopped \<longrightarrow>
           progressStore (snd (snd y)) = (progressStore ?w1)(fg_id \<mapsto> fg_position r p)"
        "fst y \<noteq> ThrowStopped \<longrightarrow> progressStore (snd (snd y)) = progressStore ?w1"
        by blast
      then show ?thesis by simp
    qed
  next
    case (MoreShops newShops wf stop)
    let ?pushed = "acc @ uniqueNewShops acc newShops"
    let ?w1 = "arrive stop fg_id (writeJsonLogged wf ?pushed w)"
    show ?thesis
    proof (cases "getScraperStatus (scraperStatus ?w1) fg_id = Stopped")
      case True
      with round(2) MoreShops have "y = (ThrowStopped, ?pushed, fg_stop r p ?w1)"
        by (simp add: Let_def)
      then show ?thesis by simp
    next
      case False
      with round(2) MoreShops have "more r p steps (n + 1) ?pushed ?w1 = Some y"
        by (simp add: Let_def)
      from round(1) [OF this] obtain ls where
        "log (snd (snd y)) = log ?w1 @ ls"
        "fst y = ThrowStopped \<longrightarrow>
           progressStore (snd (snd y)) = (progressStore ?w1)(fg_id \<mapsto> fg_position r p)"
        "fst y \<noteq> ThrowStopped \<longrightarrow> progressStore (snd (snd y)) = progressStore ?w1"
        by blast
      then show ?thesis by simp
    qed
  qed
qed

lemma fg_resume_position [simp]:
  "progressStore w fg_id = Some (fg_position r p) \<Longrightarrow> fg_resumeRegion w = r"
  "progressStore w fg_id = Some (fg_position r p) \<Longrightarrow> fg_resumePage w = p"
  by (simp_all add: fg_resumeRegion_eq fg_resumePage_eq fg_position_def emptyObject_def
      orDefault_def)

lemma fg_resume_same:
  "progressStore w' = progressStore w \<Longrightarrow> fg_resumeRegion w' = fg_resumeRegion w"
  "progressStore w' = progressStore w \<Longrightarrow> fg_resumePage w' = fg_resumePage w"
  by (simp_all add: fg_resumeRegion_eq fg_resumePage_eq)

lemma fg_body_facts:
  assumes "fg_body env r p acc cpi w = Some (sig, acc', cpi', w')"
  shows "(\<exists>ls. log w' = log w @ (INFO, UnitHeader p) # ls)
       \<and> (progressStore w' = progressStore w
          \<or> progressStore w' = (progressStore w)(fg_id \<mapsto> fg_position r p)
          \<or> sig = Next \<and> progressStore w' = (progressStore w)(fg_id \<mapsto> fg_position r (p + 1)))"
proof -
  let ?w = "logLine INFO (UnitHeader p) w"
  show ?thesis
  proof (cases "getScraperStatus (scraperStatus ?w) fg_id = Stopped")
    case True
    with assms have "w' = fg_stop r p ?w" by (simp add: fg_body_def Let_def)
    then show ?thesis by simp
  next
    case ns: False
    show ?thesis
    proof (cases "fg_unit env r p")
      case NavigationThrows
      with assms ns have
        "w' = (logLine ERROR (UnitError p) ?w)
                \<lparr> progressStore := saveProgress (progressStore (logLine ERROR (UnitError p) ?w))
                                      fg_id (fg_position r p) \<rparr>"
        by (simp add: fg_body_def Let_def)
      then show ?thesis by (simp add: saveProgress_def)
    next
      case ResultsTimeout
      with assms ns have "w' = logLine ERROR (NoResults p) ?w"
        by (simp add: fg_body_def Let_def)
      then show ?thesis by simp
    next
      case (Results shops wf steps)
      let ?w1 = "writeJsonLogged wf (acc @ shops) ?w"
      from assms ns Results obtain y where
        m: "fg_more r p steps 0 (acc @ shops) ?w1 = Some y"
        by (cases "fg_more r p steps 0 (acc @ shops) ?w1") (auto simp: fg_body_def Let_def)
      from fg_more_facts [OF m] obtain ls where
        l: "log (snd (snd y)) = log ?w1 @ ls" and
        s: "fst y = ThrowStopped \<longrightarrow>
              progressStore (snd (snd y)) = (progressStore ?w1)(fg_id \<mapsto> fg_position r p)" and
        n: "fst y \<noteq> ThrowStopped \<longrightarrow> progressStore (snd (snd y)) = progressStore ?w1"
        by blast
      obtain s1 a1 w1 where y: "y = (s1, a1, w1)" by (cases y) auto
      show ?thesis
      proof (cases s1)
        case Next
        with assms ns Results m y have
          "sig = Next \<and> w' = w1 \<lparr> progressStore :=
              saveProgress (progressStore w1) fg_id (fg_position r (p + 1)) \<rparr>"
          by (auto simp: fg_body_def Let_def)
        then show ?thesis using l n y Next by (simp add: saveProgress_def)
      next
        case ThrowStopped
        with assms ns Results m y have "w' = logLine INFO Halted w1"
          by (auto simp: fg_body_def Let_def)
        then show ?thesis using l s y ThrowStopped by simp
      next
        case Break
        with assms ns Results m y have
          "w' = (logLine ERROR (UnitError p) w1)
                  \<lparr> progressStore := saveProgress (progressStore (logLine ERROR (UnitError p) w1))
                                        fg_id (fg_position r p) \<rparr>"
          by (auto simp: fg_body_def Let_def)
        then show ?thesis using l n y Break by (simp add: saveProgress_def)
      next
        case Return
        with assms ns Results m y have
          "w' = (logLine ERROR (UnitError p) w1)
                  \<lparr> progressStore := saveProgress (progressStore (logLine ERROR (UnitError p) w1))
                                        fg_id (fg_position r p) \<rparr>"
          by (auto simp: fg_body_def Let_def)
        then show ?thesis using l n y Return by (simp add: saveProgress_def)
      next
        case ThrowError
        with assms ns Results m y have
          "w' = (logLine ERROR (UnitError p) w1)
                  \<lparr> progressStore := saveProgress (progressStore (logLine ERROR (UnitError p) w1))
                                        fg_id (fg_position r p) \<rparr>"
          by (auto simp: fg_body_def Let_def)
        then show ?thesis using l n y ThrowError by (simp add: saveProgress_def)
      qed
    qed
  qed
qed

lemma fg_body_position:
  assumes "fg_body env r p acc cpi w = Some (sig, acc', cpi', w')"
    and "fg_resumeRegion w = r" and "fg_resumePage w \<le> p"
  shows "fg_resumeRegion w' = r \<and> fg_resumePage w' \<le> p + 1
       \<and> (sig \<noteq> Next \<longrightarrow> fg_resumePage w' \<le> p)"
proof -
  from fg_body_facts [OF assms(1)] consider
      "progressStore w' = progressStore w"
    | "progressStore w' fg_id = Some (fg_position r p)"
    | "sig = Next" "progressStore w' fg_id = Some (fg_position r (p + 1))"
    by auto
  then show ?thesis
  proof cases
    case 1
    then show ?thesis using assms(2,3) fg_resume_same [OF 1] by simp
  next
    case 2
    then show ?thesis by simp
  next
    case 3
    then show ?thesis by simp
  qed
qed

lemma fg_more_passes:
  assumes "fg_more r p steps n acc w = Some y" and "fst y \<noteq> ThrowStopped"
  shows "\<not> (\<exists>k. stepStops (steps (n + k)) \<and> (\<forall>m<k. continues (steps (n + m))))"
  using assms
proof (induction r p steps n acc w y rule: fg_more_induct)
  case (round more r p steps n acc w y)
  have step: "\<not> stepStops (steps n)
      \<Longrightarrow> (continues (steps n)
            \<Longrightarrow> \<not> (\<exists>k. stepStops (steps (n + 1 + k)) \<and> (\<forall>m<k. continues (steps (n + 1 + m)))))
      \<Longrightarrow> \<not> (\<exists>k. stepStops (steps (n + k)) \<and> (\<forall>m<k. continues (steps (n + m))))"
  proof
    assume a: "\<not> stepStops (steps n)"
      and b: "continues (steps n)
            \<Longrightarrow> \<not> (\<exists>k. stepStops (steps (n + 1 + k)) \<and> (\<forall>m<k. continues (steps (n + 1 + m))))"
      and "\<exists>k. stepStops (steps (n + k)) \<and> (\<forall>m<k. continues (steps (n + m)))"
    then obtain k where k: "stepStops (steps (n + k))" "\<forall>m<k. continues (steps (n + m))"
      by blast
    show False
    proof (cases k)
      case 0
      with k a show False by simp
    next
      case (Suc j)
      with k(2) have c: "continues (steps n)" by (metis add.right_neutral zero_less_Suc)
      have "stepStops (steps (n + 1 + j))" using k(1) Suc by simp
      moreover have "\<forall>m<j. continues (steps (n + 1 + m))"
      proof (intro allI impI)
        fix m assume "m < j"
        then have "Suc m < k" using Suc by simp
        with k(2) have "continues (steps (n + Suc m))" by blast
        then show "continues (steps (n + 1 + m))" by simp
      qed
      ultimately show False using b [OF c] by blast
    qed
  qed
  show ?case
  proof (cases "steps n")
    case ButtonGone
    then show ?thesis by (intro step) simp_all
  next
    case ButtonHidden
    then show ?thesis by (intro step) simp_all
  next
    case ProbeThrows
    then show ?thesis by (intro step) simp_all
  next
    case (ClickFails stop)
    let ?w1 = "arrive stop fg_id (logLine ERROR MoreClickFailed w)"
    have ns: "getScraperStatus (scraperStatus ?w1) fg_id \<noteq> Stopped"
    proof
      assume "getScraperStatus (scraperStatus ?w1) fg_id = Stopped"
      with round(2) ClickFails have "y = (ThrowStopped, acc, fg_stop r p ?w1)"
        by (simp add: Let_def)
      with round(3) show False by simp
    qed
    then have "\<not> stop" by (auto simp: status_after_arrive)
    moreover from ns round(2) ClickFails have "more r p steps (n + 1) acc ?w1 = Some y"
      by (simp add: Let_def)
    from round(1) [OF this round(3)]
    have "\<not> (\<exists>k. stepStops (steps (n + 1 + k)) \<and> (\<forall>m<k. continues (steps (n + 1 + m))))" .
    ultimately show ?thesis using ClickFails by (intro step) simp_all
  next
    case (MoreShops newShops wf stop)
    let ?pushed = "acc @ uniqueNewShops acc newShops"
    let ?w1 = "arrive stop fg_id (writeJsonLogged wf ?pushed w)"
    have ns: "getScraperStatus (scraperStatus ?w1) fg_id \<noteq> Stopped"
    proof
      assume "getScraperStatus (scraperStatus ?w1) fg_id = Stopped"
      with round(2) MoreShops have "y = (ThrowStopped, ?pushed, fg_stop r p ?w1)"
        by (simp add: Let_def)
      with round(3) show False by simp
    qed
    then have "\<not> stop" by (auto simp: status_after_arrive)
    moreover from ns round(2) MoreShops have "more r p steps (n + 1) ?pushed ?w1 = Some y"
      by (simp add: Let_def)
    from round(1) [OF this round(3)]
    have "\<not> (\<exists>k. stepStops (steps (n + 1 + k)) \<and> (\<forall>m<k. continues (steps (n + 1 + m))))" .
    ultimately show ?thesis using MoreShops by (intro step) simp_all
  qed
qed

lemma fg_body_passes:
  assumes "fg_body env r p acc cpi (arrive (fg_stopAtUnit env r p) fg_id w)
             = Some (Next, acc', cpi', w')"
  shows "\<not> fg_stopAtUnit env r p \<and> \<not> stopSeenInside (fg_unit env r p)
       \<and> (fg_unit env r p = NavigationThrows
            \<longrightarrow> (ERROR, UnitError p) \<in> set (drop (Suc (length (log w))) (log w')))
       \<and> (fg_unit env r p = ResultsTimeout
            \<longrightarrow> (ERROR, NoResults p) \<in> set (drop (Suc (length (log w))) (log w')))"
proof -
  let ?w0 = "arrive (fg_stopAtUnit env r p) fg_id w"
  let ?w = "logLine INFO (UnitHeader p) ?w0"
  have ns: "getScraperStatus (scraperStatus ?w) fg_id \<noteq> Stopped"
    using assms by (auto simp: fg_body_def Let_def)
  then have top: "\<not> fg_stopAtUnit env r p" by (auto simp: status_after_arrive)
  show ?thesis
  proof (cases "fg_unit env r p")
    case NavigationThrows
    with assms ns have
      "w' = (logLine ERROR (UnitError p) ?w)
              \<lparr> progressStore := saveProgress (progressStore (logLine ERROR (UnitError p) ?w))
                                    fg_id (fg_position r p) \<rparr>"
      by (simp add: fg_body_def Let_def)
    then show ?thesis using top NavigationThrows by simp
  next
    case ResultsTimeout
    with assms ns have "w' = logLine ERROR (NoResults p) ?w"
      by (simp add: fg_body_def Let_def)
    then show ?thesis using top ResultsTimeout by simp
  next
    case (Results shops wf steps)
    let ?w1 = "writeJsonLogged wf (acc @ shops) ?w"
    from assms ns Results obtain y where
      m: "fg_more r p steps 0 (acc @ shops) ?w1 = Some y"
      by (cases "fg_more r p steps 0 (acc @ shops) ?w1") (auto simp: fg_body_def Let_def)
    have "fst y \<noteq> ThrowStopped"
    proof
      assume "fst y = ThrowStopped"
      then obtain a1 w1 where "y = (ThrowStopped, a1, w1)" by (cases y) auto
      with assms ns Results m show False by (simp add: fg_body_def Let_def)
    qed
    from fg_more_passes [OF m this] have "\<not> stopSeenInside (Results shops wf steps)" by simp
    then show ?thesis using top Results by simp
  qed
qed

lemma fg_pages_enumerates:
  "fg_pages env r d p acc cpi w = Some (sig, acc', cpi', w') \<Longrightarrow>
   fg_resumeRegion w = r \<Longrightarrow> fg_resumePage w \<le> p \<Longrightarrow>
   \<exists>ls. log w' = log w @ ls \<and> fg_resumeRegion w' = r
      \<and> (\<forall>u. p \<le> u \<and> u < fg_resumePage w' \<longrightarrow>
            (INFO, UnitHeader u) \<in> set ls
            \<and> \<not> fg_stopAtUnit env r u \<and> \<not> stopSeenInside (fg_unit env r u)
            \<and> (fg_unit env r u = NavigationThrows \<longrightarrow> (ERROR, UnitError u) \<in> set ls)
            \<and> (fg_unit env r u = ResultsTimeout \<longrightarrow> (ERROR, NoResults u) \<in> set ls))"
proof (induction "d - p" arbitrary: p acc cpi w)
  case 0
  then have "fg_pages env r d p acc cpi w = Some (Next, acc, cpi, w)"
    by (simp add: fg_pages.simps [of env r d p])
  with 0 show ?case by auto
next
  case (Suc n)
  then have lt: "p < d" by simp
  let ?w = "arrive (fg_stopAtUnit env r p) fg_id w"
  from Suc.prems(1) lt obtain s1 a1 c1 w1 where
    b: "fg_body env r p acc cpi ?w = Some (s1, a1, c1, w1)"
    by (cases "fg_body env r p acc cpi ?w") (auto simp: fg_pages.simps [of env r d p])
  have rs: "fg_resumeRegion ?w = r" "fg_resumePage ?w \<le> p"
    using Suc.prems(2,3) by (simp_all add: fg_resumeRegion_eq fg_resumePage_eq)
  from fg_body_facts [OF b] obtain l1 where
    l1: "log w1 = log w @ (INFO, UnitHeader p) # l1" by auto
  note pos = fg_body_position [OF b rs]
  show ?case
  proof (cases "s1 = Next")
    case False
    then have "fg_pages env r d p acc cpi w = Some (s1, a1, c1, w1)"
      using lt b by (cases s1) (simp_all add: fg_pages.simps [of env r d p])
    then have "w' = w1" using Suc.prems(1) by simp
    then show ?thesis using l1 pos False by auto
  next
    case True
    then have "fg_pages env r d p acc cpi w = fg_pages env r d (p + 1) a1 c1 w1"
      using lt b by (simp add: fg_pages.simps [of env r d p])
    then have rr: "fg_pages env r d (p + 1) a1 c1 w1 = Some (sig, acc', cpi', w')"
      using Suc.prems(1) by simp
    from b True have "fg_body env r p acc cpi ?w = Some (Next, a1, c1, w1)" by simp
    from fg_body_passes [OF this] l1 have here:
      "\<not> fg_stopAtUnit env r p" "\<not> stopSeenInside (fg_unit env r p)"
      "fg_unit env r p = NavigationThrows \<longrightarrow> (ERROR, UnitError p) \<in> set l1"
      "fg_unit env r p = ResultsTimeout \<longrightarrow> (ERROR, NoResults p) \<in> set l1"
      by simp_all
    have "n = d - (p + 1)" using Suc.hyps(2) by simp
    from Suc.hyps(1) [OF this rr] pos obtain l2 where
      l2: "log w' = log w1 @ l2" and r2: "fg_resumeRegion w' = r" and
      h2: "\<forall>u. p + 1 \<le> u \<and> u < fg_resumePage w' \<longrightarrow>
            (INFO, UnitHeader u) \<in> set l2
            \<and> \<not> fg_stopAtUnit env r u \<and> \<not> stopSeenInside (fg_unit env r u)
            \<and> (fg_unit env r u = NavigationThrows \<longrightarrow> (ERROR, UnitError u) \<in> set l2)
            \<and> (fg_unit env r u = ResultsTimeout \<longrightarrow> (ERROR, NoResults u) \<in> set l2)"
      by auto
    let ?ls = "(INFO, UnitHeader p) # l1 @ l2"
    have "log w' = log w @ ?ls" using l1 l2 by simp
    moreover have "\<forall>u. p \<le> u \<and> u < fg_resumePage w' \<longrightarrow>
            (INFO, UnitHeader u) \<in> set ?ls
            \<and> \<not> fg_stopAtUnit env r u \<and> \<not> stopSeenInside (fg_unit env r u)
            \<and> (fg_unit env r u = NavigationThrows \<longrightarrow> (ERROR, UnitError u) \<in> set ?ls)
            \<and> (fg_unit env r u = ResultsTimeout \<longrightarrow> (ERROR, NoResults u) \<in> set ?ls)"
    proof (intro allI impI)
      fix u assume u: "p \<le> u \<and> u < fg_resumePage w'"
      show "(INFO, UnitHeader u) \<in> set ?ls
            \<and> \<not> fg_stopAtUnit env r u \<and> \<not> stopSeenInside (fg_unit env r u)
            \<and> (fg_unit env r u = NavigationThrows \<longrightarrow> (ERROR, UnitError u) \<in> set ?ls)
            \<and> (fg_unit env r u = ResultsTimeout \<longrightarrow> (ERROR, NoResults u) \<in> set ?ls)"
      proof (cases "u = p")
        case True then show ?thesis using here by simp
      next
        case False
        then have "p + 1 \<le> u" using u by simp
        then show ?thesis using h2 u by simp
      qed
    qed
    ultimately show ?thesis using r2 by blast
  qed
qed

lemma theK_body_facts:
  assumes "theK_body env shops i acc w = (sig, acc', w')"
  shows "(\<exists>ls. log w' = log w @ (INFO, UnitHeader i) # ls
            \<and> (sig \<noteq> ThrowStopped \<and> \<not> falsy (shopId (shops ! i)) \<and> detail env i = PostThrows
                 \<longrightarrow> (ERROR, UnitError i) \<in> set ls))
       \<and> (theK_resumeIndex w' = theK_resumeIndex w \<or> theK_resumeIndex w' = i
            \<or> theK_resumeIndex w' = i + 1)"
  using assms
  by (auto simp: theK_body_def Let_def logLine_def saveProgress_def writeJsonLogged_def
      theK_resumeIndex_eq theK_position_def orDefault_def emptyObject_def
      split: if_splits detail_response.splits)

lemma theK_body_passes:
  assumes "theK_body env shops i acc (arrive (stopRequest env i) theK_id w) = (sig, acc', w')"
    and "sig \<noteq> ThrowStopped"
  shows "\<not> stopRequest env i"
  using assms
  by (auto simp: theK_body_def Let_def arrive_def stopScraper_def setScraperStatus_def
      getScraperStatus_def logLine_def split: if_splits)

lemma theK_loop_enumerates:
  "theK_loop env shops i acc w = (sig, acc', w') \<Longrightarrow> theK_resumeIndex w \<le> i \<Longrightarrow>
   \<exists>ls. log w' = log w @ ls
      \<and> (\<forall>u. i \<le> u \<and> u < theK_resumeIndex w' \<longrightarrow>
            (INFO, UnitHeader u) \<in> set ls \<and> \<not> stopRequest env u
            \<and> (\<not> falsy (shopId (shops ! u)) \<and> detail env u = PostThrows
                 \<longrightarrow> (ERROR, UnitError u) \<in> set ls))"
proof (induction "length shops - i" arbitrary: i acc w)
  case 0
  then have "theK_loop env shops i acc w = (Next, acc, w)"
    by (simp add: theK_loop.simps [of env shops i])
  with 0 show ?case by auto
next
  case (Suc n)
  then have lt: "i < length shops" by simp
  let ?w = "arrive (stopRequest env i) theK_id w"
  obtain s1 a1 w1 where b: "theK_body env shops i acc ?w = (s1, a1, w1)"
    by (cases "theK_body env shops i acc ?w") auto
  from theK_body_facts [OF b] obtain l1 where
    l1: "log w1 = log w @ (INFO, UnitHeader i) # l1" and
    f1: "s1 \<noteq> ThrowStopped \<and> \<not> falsy (shopId (shops ! i)) \<and> detail env i = PostThrows
           \<longrightarrow> (ERROR, UnitError i) \<in> set l1" and
    p1: "theK_resumeIndex w1 = theK_resumeIndex w \<or> theK_resumeIndex w1 = i
          \<or> theK_resumeIndex w1 = i + 1"
    by (auto simp: arrive_def theK_resumeIndex_eq split: if_splits)
  show ?case
  proof (cases "s1 = ThrowStopped")
    case True
    then have "theK_loop env shops i acc w = (ThrowStopped, a1, w1)"
      using lt b by (simp add: theK_loop.simps [of env shops i])
    then have "w' = w1" using Suc.prems(1) by simp
    moreover have "theK_resumeIndex w1 \<le> i"
      using b True Suc.prems(2)
      by (auto simp: theK_body_def Let_def logLine_def saveProgress_def writeJsonLogged_def
          theK_resumeIndex_eq theK_position_def orDefault_def emptyObject_def arrive_def
          split: if_splits detail_response.splits)
    ultimately show ?thesis using l1 by auto
  next
    case False
    then have "theK_loop env shops i acc w = theK_loop env shops (i + 1) a1 w1"
      using lt b by (cases s1) (simp_all add: theK_loop.simps [of env shops i])
    then have r: "theK_loop env shops (i + 1) a1 w1 = (sig, acc', w')"
      using Suc.prems(1) by simp
    have ns: "\<not> stopRequest env i" using theK_body_passes [OF b False] .
    have "n = length shops - (i + 1)" using Suc.hyps(2) by simp
    moreover have "theK_resumeIndex w1 \<le> i + 1" using p1 Suc.prems(2) by auto
    ultimately obtain l2 where
      l2: "log w' = log w1 @ l2" and
      h2: "\<forall>u. i + 1 \<le> u \<and> u < theK_resumeIndex w' \<longrightarrow>
             (INFO, UnitHeader u) \<in> set l2 \<and> \<not> stopRequest env u
             \<and> (\<not> falsy (shopId (shops ! u)) \<and> detail env u = PostThrows
                  \<longrightarrow> (ERROR, UnitError u) \<in> set l2)"
      using Suc.hyps(1) [OF _ r] by blast
    have "log w' = log w @ ((INFO, UnitHeader i) # l1 @ l2)" using l1 l2 by simp
    moreover have "\<forall>u. i \<le> u \<and> u < theK_resumeIndex w' \<longrightarrow>
             (INFO, UnitHeader u) \<in> set ((INFO, UnitHeader i) # l1 @ l2) \<and> \<not> stopRequest env u
             \<and> (\<not> falsy (shopId (shops ! u)) \<and> detail env u = PostThrows
                  \<longrightarrow> (ERROR, UnitError u) \<in> set ((INFO, UnitHeader i) # l1 @ l2))"
    proof (intro allI impI)
      fix u assume u: "i \<le> u \<and> u < theK_resumeIndex w'"
      show "(INFO, UnitHeader u) \<in> set ((INFO, UnitHeader i) # l1 @ l2) \<and> \<not> stopRequest env u
             \<and> (\<not> falsy (shopId (shops ! u)) \<and> detail env u = PostThrows
                  \<longrightarrow> (ERROR, UnitError u) \<in> set ((INFO, UnitHeader i) # l1 @ l2))"
      proof (cases "u = i")
        case True then show ?thesis using ns f1 False by simp
      next
        case False
        then have "i + 1 \<le> u" using u by simp
        then show ?thesis using h2 u by simp
      qed
    qed
    ultimately show ?thesis by blast
  qed
qed

lemma loadExisting_facts:
  "loadExisting w = (xs, w') \<Longrightarrow>
     progressStore w' = progressStore w \<and> scraperStatus w' = scraperStatus w
     \<and> outputFile w' = outputFile w \<and> progressFiles w' = progressFiles w
     \<and> (\<exists>ls. log w' = log w @ ls)"
  by (auto simp: loadExisting_def logLine_def split: option.splits json_file.splits)

lemma theK_finish_facts:
  "progressStore (theK_finish env (sig, acc, w)) = progressStore w
   \<and> (\<exists>ls. log (theK_finish env (sig, acc, w)) = log w @ ls)"
  by (cases sig) (auto simp: theK_finish_def logLine_def writeJsonLogged_def Let_def)

lemma theK_run_enumerates:
  assumes "theK_resumeIndex w0 \<le> u" and "u < theK_resumeIndex (snd (scrapeTheKgolf env w0))"
  shows "(INFO, UnitHeader u) \<in> set (newLines w0 (snd (scrapeTheKgolf env w0)))
       \<and> \<not> stopRequest env u
       \<and> (\<forall>shops. inputFile env = Some (Json shops) \<and> \<not> falsy (shopId (shops ! u))
                    \<and> detail env u = PostThrows
            \<longrightarrow> (ERROR, UnitError u) \<in> set (newLines w0 (snd (scrapeTheKgolf env w0))))"
proof -
  let ?w1 = "w0 \<lparr> scraperStatus := setScraperStatus (scraperStatus w0) theK_id Running \<rparr>"
  obtain p st where rp: "readProgress (progressStore ?w1) theK_id NonNumber = Inr (p, st)"
    using readProgress_NonNumber by blast
  let ?w2 = "?w1 \<lparr> progressStore := st \<rparr>"
  have start: "orDefault (currentShopIndex (fieldsOf p)) 0 = theK_resumeIndex w0"
    and same: "theK_resumeIndex ?w2 = theK_resumeIndex w0"
    using rp by (auto simp: readProgress_cases theK_resumeIndex_eq emptyObject_def orDefault_def
        split: option.splits)
  show ?thesis
  proof (cases "inputFile env")
    case None
    then have "theK_resumeIndex (snd (scrapeTheKgolf env w0)) = theK_resumeIndex w0"
      using rp same by (simp add: scrapeTheKgolf_def Let_def logLine_def theK_resumeIndex_eq)
    with assms show ?thesis by simp
  next
    case (Some f)
    show ?thesis
    proof (cases f)
      case Corrupt
      then have "theK_resumeIndex (snd (scrapeTheKgolf env w0)) = theK_resumeIndex w0"
        using rp same Some
        by (simp add: scrapeTheKgolf_def Let_def logLine_def theK_resumeIndex_eq)
      with assms show ?thesis by simp
    next
      case (Json shops)
      obtain xs w3 where le: "loadExisting ?w2 = (xs, w3)" by (cases "loadExisting ?w2") auto
      from loadExisting_facts [OF le] obtain l0 where
        w3: "progressStore w3 = progressStore ?w2" "log w3 = log w0 @ l0" by auto
      obtain sig acc w4 where lp: "theK_loop env shops (theK_resumeIndex w0) xs w3 = (sig, acc, w4)"
        by (cases "theK_loop env shops (theK_resumeIndex w0) xs w3") auto
      have fin: "snd (scrapeTheKgolf env w0) = theK_finish env (sig, acc, w4)"
        using rp Some Json le lp start by (simp add: scrapeTheKgolf_def Let_def)
      have "theK_resumeIndex w3 \<le> theK_resumeIndex w0"
        using w3(1) same by (simp add: theK_resumeIndex_eq)
      from theK_loop_enumerates [OF lp this] obtain l1 where
        l1: "log w4 = log w3 @ l1" and
        h1: "\<forall>u. theK_resumeIndex w0 \<le> u \<and> u < theK_resumeIndex w4 \<longrightarrow>
               (INFO, UnitHeader u) \<in> set l1 \<and> \<not> stopRequest env u
               \<and> (\<not> falsy (shopId (shops ! u)) \<and> detail env u = PostThrows
                    \<longrightarrow> (ERROR, UnitError u) \<in> set l1)" by blast
      from theK_finish_facts [of env sig acc w4] obtain l2 where
        ps: "progressStore (theK_finish env (sig, acc, w4)) = progressStore w4" and
        l2: "log (theK_finish env (sig, acc, w4)) = log w4 @ l2" by blast
      have "theK_resumeIndex (theK_finish env (sig, acc, w4)) = theK_resumeIndex w4"
        using ps by (simp add: theK_resumeIndex_eq)
      then have "(INFO, UnitHeader u) \<in> set l1 \<and> \<not> stopRequest env u
               \<and> (\<not> falsy (shopId (shops ! u)) \<and> detail env u = PostThrows
                    \<longrightarrow> (ERROR, UnitError u) \<in> set l1)" using assms h1 fin by simp
      moreover have "newLines w0 (snd (scrapeTheKgolf env w0)) = l0 @ l1 @ l2"
        using fin l2 l1 w3(2) by (simp add: newLines_def)
      ultimately show ?thesis using Some Json by simp
    qed
  qed
qed

lemma cz_body_facts:
  assumes "cz_body env p acc w = (sig, acc', w')" and "1 \<le> p"
  shows "(sig = Next \<longrightarrow>
            (\<exists>ls. log w' = log w @ (INFO, UnitHeader p) # ls
               \<and> (listing env p = PageThrows \<or> cz_writeThrows env p \<longrightarrow> (ERROR, UnitError p) \<in> set ls))
            \<and> \<not> stopSignal env p \<and> cz_resumePage w' = p + 1)
       \<and> (sig \<noteq> Next \<longrightarrow> (\<exists>ls. log w' = log w @ ls)
                      \<and> (cz_resumePage w' = cz_resumePage w \<or> cz_resumePage w' = p))"
  using assms
  by (auto simp: cz_body_def Let_def logLine_def saveProgress_def
      cz_resumePage_eq cz_position_def emptyObject_def
      split: if_splits page_result.splits)

lemma cz_loop_enumerates:
  "cz_loop env p acc w = (sig, acc', w') \<Longrightarrow> cz_resumePage w \<le> p \<Longrightarrow> 1 \<le> p \<Longrightarrow>
   \<exists>ls. log w' = log w @ ls
      \<and> (\<forall>u. p \<le> u \<and> u < cz_resumePage w' \<longrightarrow>
            (INFO, UnitHeader u) \<in> set ls \<and> \<not> stopSignal env u
            \<and> (listing env u = PageThrows \<or> cz_writeThrows env u \<longrightarrow> (ERROR, UnitError u) \<in> set ls))"
proof (induction "101 - p" arbitrary: p acc w)
  case 0
  then have "cz_loop env p acc w = (Next, acc, w)"
    by (simp add: cz_loop.simps [of env p])
  with 0 show ?case by auto
next
  case (Suc n)
  then have le: "p \<le> 100" by simp
  obtain s1 a1 w1 where b: "cz_body env p acc w = (s1, a1, w1)"
    by (cases "cz_body env p acc w") auto
  note f = cz_body_facts [OF b Suc.prems(3)]
  show ?case
  proof (cases "s1 = Next")
    case False
    then have "cz_loop env p acc w = (s1, a1, w1)"
      using le b by (cases s1) (simp_all add: cz_loop.simps [of env p])
    then have "w' = w1" using Suc.prems(1) by simp
    then show ?thesis using f False Suc.prems(2) by auto
  next
    case True
    then have "cz_loop env p acc w = cz_loop env (p + 1) a1 w1"
      using le b by (simp add: cz_loop.simps [of env p])
    then have r: "cz_loop env (p + 1) a1 w1 = (sig, acc', w')"
      using Suc.prems(1) by simp
    from f True obtain l1 where l1: "log w1 = log w @ (INFO, UnitHeader p) # l1"
      and e1: "listing env p = PageThrows \<or> cz_writeThrows env p \<longrightarrow> (ERROR, UnitError p) \<in> set l1"
      and ns: "\<not> stopSignal env p"
      and p1: "cz_resumePage w1 = p + 1" by auto
    have "n = 101 - (p + 1)" using Suc.hyps(2) by simp
    then obtain l2 where
      l2: "log w' = log w1 @ l2" and
      h2: "\<forall>u. p + 1 \<le> u \<and> u < cz_resumePage w' \<longrightarrow>
             (INFO, UnitHeader u) \<in> set l2 \<and> \<not> stopSignal env u
             \<and> (listing env u = PageThrows \<or> cz_writeThrows env u \<longrightarrow> (ERROR, UnitError u) \<in> set l2)"
      using Suc.hyps(1) [OF _ r] p1 by auto
    have "log w' = log w @ ((INFO, UnitHeader p) # l1 @ l2)" using l1 l2 by simp
    moreover have "\<forall>u. p \<le> u \<and> u < cz_resumePage w' \<longrightarrow>
             (INFO, UnitHeader u) \<in> set ((INFO, UnitHeader p) # l1 @ l2) \<and> \<not> stopSignal env u
             \<and> (listing env u = PageThrows \<or> cz_writeThrows env u
                  \<longrightarrow> (ERROR, UnitError u) \<in> set ((INFO, UnitHeader p) # l1 @ l2))"
    proof (intro allI impI)
      fix u assume u: "p \<le> u \<and> u < cz_resumePage w'"
      show "(INFO, UnitHeader u) \<in> set ((INFO, UnitHeader p) # l1 @ l2) \<and> \<not> stopSignal env u
             \<and> (listing env u = PageThrows \<or> cz_writeThrows env u
                  \<longrightarrow> (ERROR, UnitError u) \<in> set ((INFO, UnitHeader p) # l1 @ l2))"
      proof (cases "u = p")
        case True then show ?thesis using ns e1 by simp
      next
        case False
        then have "p + 1 \<le> u" using u by simp
        then show ?thesis using h2 u by simp
      qed
    qed
    ultimately show ?thesis by blast
  qed
qed

lemma cz_finish_facts:
  "progressStore (snd (cz_finish (sig, acc, w))) = progressStore w
   \<and> (\<exists>ls. log (snd (cz_finish (sig, acc, w))) = log w @ ls)"
  by (cases sig) (auto simp: cz_finish_def logLine_def)

lemma cz_run_enumerates:
  assumes "cz_resumePage w0 \<le> u" and "u < cz_resumePage (snd (scrapeCiteezen env w0))"
  shows "(INFO, UnitHeader u) \<in> set (newLines w0 (snd (scrapeCiteezen env w0)))
       \<and> \<not> stopSignal env u
       \<and> (listing env u = PageThrows \<or> cz_writeThrows env u
            \<longrightarrow> (ERROR, UnitError u) \<in> set (newLines w0 (snd (scrapeCiteezen env w0))))"
proof -
  obtain p st where rp: "readProgress (progressStore w0) cz_name NonNumber = Inr (p, st)"
    using readProgress_NonNumber by blast
  let ?w1 = "w0 \<lparr> progressStore := st \<rparr>"
  let ?start = "case currentPage (fieldsOf p) of None \<Rightarrow> 1 | Some q \<Rightarrow> if q = 0 then 1 else q"
  have start: "?start = cz_resumePage w0"
    and same: "cz_resumePage ?w1 = cz_resumePage w0"
    using rp by (auto simp: readProgress_cases cz_resumePage_eq emptyObject_def
        split: option.splits)
  have one: "1 \<le> cz_resumePage w0"
    by (auto simp: cz_resumePage_eq split: option.splits)
  show ?thesis
  proof (cases "chromiumFound env")
    case False
    then have "cz_resumePage (snd (scrapeCiteezen env w0)) = cz_resumePage w0"
      using rp same by (simp add: scrapeCiteezen_def Let_def logLine_def cz_resumePage_eq)
    with assms show ?thesis by simp
  next
    case True
    obtain xs w2 where le: "loadExisting ?w1 = (xs, w2)" by (cases "loadExisting ?w1") auto
    from loadExisting_facts [OF le] obtain l0 where
      w2: "progressStore w2 = progressStore ?w1" "log w2 = log w0 @ l0" by auto
    obtain sig acc w3 where lp: "cz_loop env (cz_resumePage w0) xs w2 = (sig, acc, w3)"
      by (cases "cz_loop env (cz_resumePage w0) xs w2") auto
    have fin: "snd (scrapeCiteezen env w0) = snd (cz_finish (sig, acc, w3))"
      using rp True le lp start by (simp add: scrapeCiteezen_def Let_def)
    have "cz_resumePage w2 \<le> cz_resumePage w0"
      using w2(1) same by (simp add: cz_resumePage_eq)
    from cz_loop_enumerates [OF lp this one] obtain l1 where
      l1: "log w3 = log w2 @ l1" and
      h1: "\<forall>u. cz_resumePage w0 \<le> u \<and> u < cz_resumePage w3 \<longrightarrow>
             (INFO, UnitHeader u) \<in> set l1 \<and> \<not> stopSignal env u
             \<and> (listing env u = PageThrows \<or> cz_writeThrows env u \<longrightarrow> (ERROR, UnitError u) \<in> set l1)" by blast
    from cz_finish_facts [of sig acc w3] obtain l2 where
      ps: "progressStore (snd (cz_finish (sig, acc, w3))) = progressStore w3" and
      l2: "log (snd (cz_finish (sig, acc, w3))) = log w3 @ l2" by blast
    have "cz_resumePage (snd (cz_finish (sig, acc, w3))) = cz_resumePage w3"
      using ps by (simp add: cz_resumePage_eq)
    then have "(INFO, UnitHeader u) \<in> set l1 \<and> \<not> stopSignal env u
             \<and> (listing env u = PageThrows \<or> cz_writeThrows env u \<longrightarrow> (ERROR, UnitError u) \<in> set l1)"
      using assms h1 fin by simp
    moreover have "newLines w0 (snd (scrapeCiteezen env w0)) = l0 @ l1 @ l2"
      using fin l2 l1 w2(2) by (simp add: newLines_def)
    ultimately show ?thesis by simp
  qed
qed


lemma fg_regions_single:
  "fg_regions env [d] 0 acc cpi w =
     (case fg_pages env 0 d cpi acc cpi (logLine INFO (RegionHeader 0) w) of
        None \<Rightarrow> None
      | Some (ThrowStopped, a, c, w') \<Rightarrow> Some (ThrowStopped, a, c, w')
      | Some (_, a, c, w') \<Rightarrow> Some (Next, a, c, fg_regionEnd env 0 a w'))"
  by (simp add: fg_regions.simps [of env "[d]" 0] fg_regions.simps [of env "[d]" "Suc 0"]
      split: option.split signal.split)

lemma fg_regions_beyond:
  "length regs \<le> r \<Longrightarrow> fg_regions env regs r acc cpi w = Some (Next, acc, cpi, w)"
  by (simp add: fg_regions.simps [of env regs r])

lemma fg_regionEnd_fields [simp]:
  "progressStore (fg_regionEnd env r acc w) = progressStore w"
  "scraperStatus (fg_regionEnd env r acc w) = scraperStatus w"
  "log (fg_regionEnd env r acc w)
     = log w @ (if fg_regionWriteFails env r then [(ERROR, WriteError)] else [])"
  by (simp_all add: fg_regionEnd_def)

lemma fg_run_enumerates:
  assumes run: "scrapeFriendgolf env w0 = Some (res, w1)"
    and reg: "fg_resumeRegion w0 = 0"
    and u: "fg_resumePage w0 \<le> u" "u < fg_resumePage w1"
  shows "(INFO, UnitHeader u) \<in> set (newLines w0 w1)
       \<and> \<not> fg_stopAtUnit env 0 u \<and> \<not> stopSeenInside (fg_unit env 0 u)
       \<and> (fg_unit env 0 u = NavigationThrows \<longrightarrow> (ERROR, UnitError u) \<in> set (newLines w0 w1))
       \<and> (fg_unit env 0 u = ResultsTimeout \<longrightarrow> (ERROR, NoResults u) \<in> set (newLines w0 w1))"
proof -
  let ?w1 = "w0 \<lparr> scraperStatus := setScraperStatus (scraperStatus w0) fg_id Running \<rparr>"
  obtain p st where rp: "readProgress (progressStore ?w1) fg_id NonNumber = Inr (p, st)"
    using readProgress_NonNumber by blast
  let ?w2 = "?w1 \<lparr> progressStore := st \<rparr>"
  have start: "orDefault (currentRegionIndex (fieldsOf p)) 0 = 0"
      "orDefault (currentPageIndex (fieldsOf p)) 0 = fg_resumePage w0"
    and same: "fg_resumeRegion ?w2 = 0" "fg_resumePage ?w2 = fg_resumePage w0"
    using rp reg
    by (auto simp: readProgress_cases fg_resumeRegion_eq fg_resumePage_eq emptyObject_def
        orDefault_def split: option.splits)
  obtain xs w3 where le: "loadExisting ?w2 = (xs, w3)" by (cases "loadExisting ?w2") auto
  from loadExisting_facts [OF le] obtain l0 where
    w3: "progressStore w3 = progressStore ?w2" "log w3 = log w0 @ l0" by auto
  let ?w4 = "logLine INFO (RegionHeader 0) w3"
  have fin: "fg_finish (fg_regions env [25] 0 xs (fg_resumePage w0) w3) = Some (res, w1)"
    using run rp le start
    by (simp add: scrapeFriendgolf_def scrapeFriendgolfOn_def regions_def Let_def)
  then obtain sig acc cpi w5 where
    pg: "fg_pages env 0 25 (fg_resumePage w0) xs (fg_resumePage w0) ?w4 = Some (sig, acc, cpi, w5)"
    by (cases "fg_pages env 0 25 (fg_resumePage w0) xs (fg_resumePage w0) ?w4")
      (auto simp: fg_regions_single fg_finish_def)
  have "fg_resumeRegion ?w4 = 0" "fg_resumePage ?w4 \<le> fg_resumePage w0"
    using w3(1) same by (simp_all add: fg_resumeRegion_eq fg_resumePage_eq)
  from fg_pages_enumerates [OF pg this] obtain l1 where
    l1: "log w5 = log ?w4 @ l1" and
    h1: "\<forall>u. fg_resumePage w0 \<le> u \<and> u < fg_resumePage w5 \<longrightarrow>
            (INFO, UnitHeader u) \<in> set l1
            \<and> \<not> fg_stopAtUnit env 0 u \<and> \<not> stopSeenInside (fg_unit env 0 u)
            \<and> (fg_unit env 0 u = NavigationThrows \<longrightarrow> (ERROR, UnitError u) \<in> set l1)
            \<and> (fg_unit env 0 u = ResultsTimeout \<longrightarrow> (ERROR, NoResults u) \<in> set l1)" by blast
  have "progressStore w1 = progressStore w5 \<and> (\<exists>l2. log w1 = log w5 @ l2)"
    using fin pg by (cases sig) (auto simp: fg_regions_single fg_finish_def)
  then obtain l2 where ps: "progressStore w1 = progressStore w5" and l2: "log w1 = log w5 @ l2"
    by blast
  have "fg_resumePage w1 = fg_resumePage w5" using ps by (simp add: fg_resumePage_eq)
  then have "(INFO, UnitHeader u) \<in> set l1
            \<and> \<not> fg_stopAtUnit env 0 u \<and> \<not> stopSeenInside (fg_unit env 0 u)
            \<and> (fg_unit env 0 u = NavigationThrows \<longrightarrow> (ERROR, UnitError u) \<in> set l1)
            \<and> (fg_unit env 0 u = ResultsTimeout \<longrightarrow> (ERROR, NoResults u) \<in> set l1)"
    using u h1 by simp
  moreover have "newLines w0 w1 = l0 @ (INFO, RegionHeader 0) # l1 @ l2"
    using l2 l1 w3(2) by (simp add: newLines_def)
  ultimately show ?thesis by simp
qed


text \<open>
  C2, as the code has it (scrapeTheKgolf, scrapeCiteezen, scrapeFriendgolf): the persisted
  position never passes a unit that the run has not started to process. When a run ends,
  every unit from the position the run resumed at up to, and not including, the position
  it leaves in the store has been enumerated by this run (the header line of the unit is
  among the lines the run logged), and no stop request was seen at it, neither at the
  poll that opens the unit nor, for scrapeFriendgolf, at a poll inside it: the unit was
  processed to its end. Where that processing failed (the request, the page or the write
  threw, or the results did not show), the error line of the unit is among the lines the
  run logged. (For scrapeFriendgolf: within the one region of the source.)
\<close>

theorem record_never_passes_unstarted_unit:
  "(theK_resumeIndex w0 \<le> u \<and> u < theK_resumeIndex (snd (scrapeTheKgolf env w0))
      \<longrightarrow> (INFO, UnitHeader u) \<in> set (newLines w0 (snd (scrapeTheKgolf env w0)))
          \<and> \<not> stopRequest env u
          \<and> (\<forall>shops. inputFile env = Some (Json shops) \<and> \<not> falsy (shopId (shops ! u))
                       \<and> detail env u = PostThrows
                \<longrightarrow> (ERROR, UnitError u) \<in> set (newLines w0 (snd (scrapeTheKgolf env w0)))))
   \<and> (cz_resumePage cw0 \<le> u \<and> u < cz_resumePage (snd (scrapeCiteezen cenv cw0))
      \<longrightarrow> (INFO, UnitHeader u) \<in> set (newLines cw0 (snd (scrapeCiteezen cenv cw0)))
          \<and> \<not> stopSignal cenv u
          \<and> (listing cenv u = PageThrows \<or> cz_writeThrows cenv u
                \<longrightarrow> (ERROR, UnitError u) \<in> set (newLines cw0 (snd (scrapeCiteezen cenv cw0)))))
   \<and> (scrapeFriendgolf fenv fw0 = Some (res, fw1) \<and> fg_resumeRegion fw0 = 0
        \<and> fg_resumePage fw0 \<le> u \<and> u < fg_resumePage fw1
      \<longrightarrow> (INFO, UnitHeader u) \<in> set (newLines fw0 fw1)
          \<and> \<not> fg_stopAtUnit fenv 0 u \<and> \<not> stopSeenInside (fg_unit fenv 0 u)
          \<and> (fg_unit fenv 0 u = NavigationThrows
                \<longrightarrow> (ERROR, UnitError u) \<in> set (newLines fw0 fw1))
          \<and> (fg_unit fenv 0 u = ResultsTimeout
                \<longrightarrow> (ERROR, NoResults u) \<in> set (newLines fw0 fw1)))"
proof -
  have 1: "theK_resumeIndex w0 \<le> u \<and> u < theK_resumeIndex (snd (scrapeTheKgolf env w0))
      \<longrightarrow> (INFO, UnitHeader u) \<in> set (newLines w0 (snd (scrapeTheKgolf env w0)))
          \<and> \<not> stopRequest env u
          \<and> (\<forall>shops. inputFile env = Some (Json shops) \<and> \<not> falsy (shopId (shops ! u))
                       \<and> detail env u = PostThrows
                \<longrightarrow> (ERROR, UnitError u) \<in> set (newLines w0 (snd (scrapeTheKgolf env w0))))"
    using theK_run_enumerates [of w0 u env] by blast
  have 2: "cz_resumePage cw0 \<le> u \<and> u < cz_resumePage (snd (scrapeCiteezen cenv cw0))
      \<longrightarrow> (INFO, UnitHeader u) \<in> set (newLines cw0 (snd (scrapeCiteezen cenv cw0)))
          \<and> \<not> stopSignal cenv u
          \<and> (listing cenv u = PageThrows \<or> cz_writeThrows cenv u
                \<longrightarrow> (ERROR, UnitError u) \<in> set (newLines cw0 (snd (scrapeCiteezen cenv cw0))))"
    using cz_run_enumerates [of cw0 u cenv] by blast
  have 3: "scrapeFriendgolf fenv fw0 = Some (res, fw1) \<and> fg_resumeRegion fw0 = 0
        \<and> fg_resumePage fw0 \<le> u \<and> u < fg_resumePage fw1
      \<longrightarrow> (INFO, UnitHeader u) \<in> set (newLines fw0 fw1)
          \<and> \<not> fg_stopAtUnit fenv 0 u \<and> \<not> stopSeenInside (fg_unit fenv 0 u)
          \<and> (fg_unit fenv 0 u = NavigationThrows
                \<longrightarrow> (ERROR, UnitError u) \<in> set (newLines fw0 fw1))
          \<and> (fg_unit fenv 0 u = ResultsTimeout
                \<longrightarrow> (ERROR, NoResults u) \<in> set (newLines fw0 fw1))"
    using fg_run_enumerates [of fenv fw0 res fw1 u] by blast
  show ?thesis by (rule conjI [OF 1 conjI [OF 2 3]])
qed

text \<open>
  Three shops; the request for the first throws, the second succeeds, and a stop request
  arrives before the third is polled: the record is left at the third shop, past the
  failed first one. A listing whose first page throws. A site on which no search shows
  results, with a stop request before district 3.
\<close>

theorem record_never_passes_unstarted_unit_witness:
  "theK_resumeIndex (snd (scrapeTheKgolf theK_flaky emptyWorld)) = 2
   \<and> stopRequest theK_flaky 2
   \<and> (INFO, UnitHeader 0) \<in> set (newLines emptyWorld (snd (scrapeTheKgolf theK_flaky emptyWorld)))
   \<and> (ERROR, UnitError 0) \<in> set (newLines emptyWorld (snd (scrapeTheKgolf theK_flaky emptyWorld)))
   \<and> (INFO, UnitHeader 1) \<in> set (newLines emptyWorld (snd (scrapeTheKgolf theK_flaky emptyWorld)))
   \<and> cz_resumePage (snd (scrapeCiteezen cz_firstPageFails emptyWorld)) = 2
   \<and> (INFO, UnitHeader 1)
        \<in> set (newLines emptyWorld (snd (scrapeCiteezen cz_firstPageFails emptyWorld)))
   \<and> (ERROR, UnitError 1)
        \<in> set (newLines emptyWorld (snd (scrapeCiteezen cz_firstPageFails emptyWorld)))
   \<and> (\<exists>r w1. scrapeFriendgolf fg_stopping emptyWorld = Some (r, w1) \<and> fg_resumePage w1 = 3
        \<and> fg_stopAtUnit fg_stopping 0 3
        \<and> (INFO, UnitHeader 2) \<in> set (newLines emptyWorld w1)
        \<and> (ERROR, NoResults 2) \<in> set (newLines emptyWorld w1))"
proof -
  have a: "theK_resumeIndex (emptyWorld :: detailedShop world) = 0"
          "theK_resumeIndex (snd (scrapeTheKgolf theK_flaky emptyWorld)) = 2"
    by code_simp+
  have a': "stopRequest theK_flaky 2" "inputFile theK_flaky = Some (Json [shopA, shopA, shopA])"
    "\<not> falsy (shopId ([shopA, shopA, shopA] ! 0))" "detail theK_flaky 0 = PostThrows"
    by (simp_all add: theK_flaky_def shopA_def falsy_def)
  have b: "cz_resumePage (emptyWorld :: store world) = 1"
          "cz_resumePage (snd (scrapeCiteezen cz_firstPageFails emptyWorld)) = 2"
    by code_simp+
  have b': "listing cz_firstPageFails 1 = PageThrows" by (simp add: cz_firstPageFails_def)
  have "case scrapeFriendgolf fg_stopping emptyWorld of
          None \<Rightarrow> False | Some (r, w) \<Rightarrow> fg_resumePage w = 3"
    by code_simp
  then obtain r w1 where
    c: "scrapeFriendgolf fg_stopping emptyWorld = Some (r, w1)" "fg_resumePage w1 = 3"
    by (auto split: option.splits)
  have d: "fg_resumeRegion (emptyWorld :: fgShop world) = 0"
          "fg_resumePage (emptyWorld :: fgShop world) = 0"
    by code_simp+
  have d': "fg_stopAtUnit fg_stopping 0 3" "fg_unit fg_stopping 0 2 = ResultsTimeout"
    by (simp_all add: fg_stopping_def)
  note t0 = record_never_passes_unstarted_unit
      [of emptyWorld 0 theK_flaky emptyWorld cz_firstPageFails fg_stopping emptyWorld r w1]
  note t1 = record_never_passes_unstarted_unit
      [of emptyWorld 1 theK_flaky emptyWorld cz_firstPageFails fg_stopping emptyWorld r w1]
  note t2 = record_never_passes_unstarted_unit
      [of emptyWorld 2 theK_flaky emptyWorld cz_firstPageFails fg_stopping emptyWorld r w1]
  from t0 a a' have 0:
    "(INFO, UnitHeader 0) \<in> set (newLines emptyWorld (snd (scrapeTheKgolf theK_flaky emptyWorld)))"
    "(ERROR, UnitError 0) \<in> set (newLines emptyWorld (snd (scrapeTheKgolf theK_flaky emptyWorld)))"
    by auto
  from t1 a b b' have 1:
    "(INFO, UnitHeader 1) \<in> set (newLines emptyWorld (snd (scrapeTheKgolf theK_flaky emptyWorld)))"
    "(INFO, UnitHeader 1)
        \<in> set (newLines emptyWorld (snd (scrapeCiteezen cz_firstPageFails emptyWorld)))"
    "(ERROR, UnitError 1)
        \<in> set (newLines emptyWorld (snd (scrapeCiteezen cz_firstPageFails emptyWorld)))"
    by auto
  from t2 c d d' have 2:
    "(INFO, UnitHeader 2) \<in> set (newLines emptyWorld w1)"
    "(ERROR, NoResults 2) \<in> set (newLines emptyWorld w1)"
    by auto
  from 0 1 2 a(2) a'(1) b(2) c d'(1) show ?thesis by blast
qed

text \<open>
  The claim C2 as stated fails for scrapeCiteezen: page 1 throws, is logged and is not
  tried again; the record is advanced to page 2 all the same, and a run that resumes from
  that record starts at page 2, so the failed page is never enumerated again.
\<close>

theorem failed_page_is_passed_and_not_revisited:
  "listing cz_firstPageFails 1 = PageThrows
   \<and> cz_resumePage (snd (scrapeCiteezen cz_firstPageFails emptyWorld)) = 2
   \<and> newLines (snd (scrapeCiteezen cz_firstPageFails emptyWorld))
        (snd (scrapeCiteezen cz_firstPageFails
               (snd (scrapeCiteezen cz_firstPageFails emptyWorld))))
      = [(INFO, UnitHeader 2), (INFO, NoData 2), (INFO, Completed)]"
  by code_simp


subsection \<open>Stopping after some units and resuming\<close>

lemma sameDisk_arrive: "sameDisk w w' \<Longrightarrow> sameDisk (arrive b i w) (arrive b i w')"
  by (simp add: sameDisk_def arrive_def)

lemma loaded_outputFile:
  "outputFile w = outputFile w' \<Longrightarrow> fst (loadExisting w) = fst (loadExisting w')"
  by (simp add: loadExisting_def split: option.split json_file.split)

lemma loaded_Json [simp]: "outputFile w = Some (Json xs) \<Longrightarrow> fst (loadExisting w) = xs"
  by (simp add: loadExisting_def)

lemma theK_body_env:
  "theK_body (env \<lparr> stopRequest := f \<rparr>) shops i acc w = theK_body env shops i acc w"
  by (simp add: theK_body_def Let_def split: detail_response.split)

lemma theK_body_running:
  assumes "getScraperStatus (scraperStatus w) theK_id \<noteq> Stopped"
    and "theK_body env shops i acc w = (sig, acc', w')"
  shows "sig = Next \<and> scraperStatus w' = scraperStatus w
       \<and> (\<not> writeFails env i \<longrightarrow> fst (loadExisting w) = acc \<longrightarrow> fst (loadExisting w') = acc')"
proof -
  let ?w = "logLine INFO (UnitHeader i) w"
  have l: "fst (loadExisting ?w) = fst (loadExisting w)"
    by (rule loaded_outputFile) simp
  show ?thesis
  proof (cases "falsy (shopId (shops ! i))")
    case True
    with assms have "sig = Next \<and> acc' = acc \<and> w' = logLine WARN (NoShopId i) ?w"
      by (auto simp: theK_body_def Let_def)
    then show ?thesis using loaded_outputFile [of w' w] by simp
  next
    case False
    show ?thesis
    proof (cases "detail env i")
      case PostThrows
      with assms False have
        "sig = Next \<and> acc' = acc
         \<and> w' = (logLine ERROR (UnitError i) ?w)
                  \<lparr> progressStore := saveProgress (progressStore (logLine ERROR (UnitError i) ?w))
                                        theK_id (theK_position i) \<rparr>"
        by (auto simp: theK_body_def Let_def)
      then show ?thesis using loaded_outputFile [of w' w] by simp
    next
      case NoDetail
      with assms False have
        "sig = Next \<and> acc' = acc
         \<and> w' = (logLine WARN (NoDetailInfo i) ?w)
                  \<lparr> progressStore := saveProgress (progressStore (logLine WARN (NoDetailInfo i) ?w))
                                        theK_id (theK_position (i + 1)) \<rparr>"
        by (auto simp: theK_body_def Let_def)
      then show ?thesis using loaded_outputFile [of w' w] by simp
    next
      case (Detail sens)
      let ?pushed = "acc @ [\<lparr> shopId = shopId (shops ! i), shopName = shopName (shops ! i),
                               sensors = sens \<rparr>]"
      let ?w1 = "writeJsonLogged (writeFails env i) ?pushed ?w"
      from assms False Detail have
        "sig = Next \<and> acc' = ?pushed
         \<and> w' = ?w1 \<lparr> progressStore := saveProgress (progressStore ?w1) theK_id
                                          (theK_position (i + 1)) \<rparr>"
        by (auto simp: theK_body_def Let_def)
      then show ?thesis by simp
    qed
  qed
qed

lemma theK_loop_stop_here:
  assumes "k < length shops"
  shows "theK_loop (env \<lparr> stopRequest := (\<lambda>i. i = k) \<rparr>) shops k acc w =
           (ThrowStopped, acc,
            w \<lparr> progressStore := (progressStore w)(theK_id \<mapsto> theK_position k),
                scraperStatus := (scraperStatus w)(theK_id \<mapsto> Idle),
                log := log w @ [(INFO, UnitHeader k), (INFO, StopSignal)] \<rparr>)"
  using assms
  by (simp add: theK_loop.simps [of _ shops k] theK_body_def Let_def arrive_def logLine_def
      stopScraper_def resetScraper_def setScraperStatus_def getScraperStatus_def saveProgress_def)

lemma theK_prefix:
  assumes "\<forall>j. \<not> stopRequest env j" and "\<forall>j<k. \<not> writeFails env j" and "k < length shops"
  shows "i \<le> k \<Longrightarrow> getScraperStatus (scraperStatus w) theK_id \<noteq> Stopped \<Longrightarrow>
         fst (loadExisting w) = acc \<Longrightarrow>
         \<exists>acc_k w_k.
            theK_loop env shops i acc w = theK_loop env shops k acc_k w_k
          \<and> theK_loop (env \<lparr> stopRequest := (\<lambda>i. i = k) \<rparr>) shops i acc w =
              (ThrowStopped, acc_k,
               w_k \<lparr> progressStore := (progressStore w_k)(theK_id \<mapsto> theK_position k),
                     scraperStatus := (scraperStatus w_k)(theK_id \<mapsto> Idle),
                     log := log w_k @ [(INFO, UnitHeader k), (INFO, StopSignal)] \<rparr>)
          \<and> fst (loadExisting w_k) = acc_k \<and> scraperStatus w_k = scraperStatus w"
proof (induction "k - i" arbitrary: i acc w)
  case 0
  then have "i = k" by simp
  then show ?case using theK_loop_stop_here [OF assms(3)] 0 by blast
next
  case (Suc n)
  then have lt: "i < k" by simp
  then have il: "i < length shops" using assms(3) by simp
  let ?env1 = "env \<lparr> stopRequest := (\<lambda>i. i = k) \<rparr>"
  obtain s1 a1 w1 where b: "theK_body env shops i acc w = (s1, a1, w1)"
    by (cases "theK_body env shops i acc w") auto
  from theK_body_running [OF Suc.prems(2) b] lt assms(2) Suc.prems(3) have
    f: "s1 = Next" "scraperStatus w1 = scraperStatus w" "fst (loadExisting w1) = a1" by auto
  have u: "theK_loop env shops i acc w = theK_loop env shops (i + 1) a1 w1"
    using il b f(1) assms(1) by (simp add: theK_loop.simps [of env shops i] arrive_def)
  have v: "theK_loop ?env1 shops i acc w = theK_loop ?env1 shops (i + 1) a1 w1"
    using il b f(1) lt
    by (simp add: theK_loop.simps [of ?env1 shops i] arrive_def theK_body_env)
  have n: "n = k - (i + 1)" and ik: "i + 1 \<le> k" using Suc.hyps(2) lt by simp_all
  have st1: "getScraperStatus (scraperStatus w1) theK_id \<noteq> Stopped"
    using f(2) Suc.prems(2) by simp
  from Suc.hyps(1) [OF n ik st1 f(3)] obtain acc_k w_k where r:
    "theK_loop env shops (i + 1) a1 w1 = theK_loop env shops k acc_k w_k"
    "theK_loop ?env1 shops (i + 1) a1 w1 =
       (ThrowStopped, acc_k,
        w_k \<lparr> progressStore := (progressStore w_k)(theK_id \<mapsto> theK_position k),
              scraperStatus := (scraperStatus w_k)(theK_id \<mapsto> Idle),
              log := log w_k @ [(INFO, UnitHeader k), (INFO, StopSignal)] \<rparr>)"
    "fst (loadExisting w_k) = acc_k" "scraperStatus w_k = scraperStatus w1"
    by blast
  have "scraperStatus w_k = scraperStatus w" using r(4) f(2) by simp
  with r(1,2,3) u v show ?case by metis
qed

lemma theK_body_sameDisk:
  assumes "sameDisk w v" and "theK_body env shops i acc w = (sig, acc', w')"
  shows "\<exists>v'. theK_body env shops i acc v = (sig, acc', v') \<and> sameDisk w' v'"
  using assms
  by (auto simp: theK_body_def Let_def sameDisk_def saveProgress_def resetScraper_def
      setScraperStatus_def split: if_splits detail_response.splits)

lemma theK_loop_sameDisk:
  "sameDisk w v \<Longrightarrow> theK_loop env shops i acc w = (sig, acc', w') \<Longrightarrow>
   \<exists>v'. theK_loop env shops i acc v = (sig, acc', v') \<and> sameDisk w' v'"
proof (induction "length shops - i" arbitrary: i acc w v)
  case 0
  then show ?case by (simp add: theK_loop.simps [of env shops i])
next
  case (Suc n)
  then have lt: "i < length shops" by simp
  let ?w = "arrive (stopRequest env i) theK_id w"
  let ?v = "arrive (stopRequest env i) theK_id v"
  obtain s1 a1 w1 where b: "theK_body env shops i acc ?w = (s1, a1, w1)"
    by (cases "theK_body env shops i acc ?w") auto
  from theK_body_sameDisk [OF sameDisk_arrive [OF Suc.prems(1)] b] obtain v1 where
    c: "theK_body env shops i acc ?v = (s1, a1, v1)" and d: "sameDisk w1 v1" by blast
  show ?case
  proof (cases "s1 = ThrowStopped")
    case True
    then show ?thesis
      using lt b c d Suc.prems(2) by (simp add: theK_loop.simps [of env shops i])
  next
    case False
    then have "theK_loop env shops i acc w = theK_loop env shops (i + 1) a1 w1"
      "theK_loop env shops i acc v = theK_loop env shops (i + 1) a1 v1"
      using lt b c by (cases s1; simp add: theK_loop.simps [of env shops i])+
    moreover have "n = length shops - (i + 1)" using Suc.hyps(2) by simp
    ultimately show ?thesis using Suc.hyps(1) [OF _ d] Suc.prems(2) by simp
  qed
qed

lemma theK_finish_sameDisk:
  "sameDisk w v \<Longrightarrow>
   outputFile (theK_finish env (sig, acc, w)) = outputFile (theK_finish env (sig, acc, v))"
  by (cases sig) (simp_all add: theK_finish_def sameDisk_def Let_def)

lemma loadExisting_fst_snd:
  "outputFile (snd (loadExisting w)) = outputFile w"
  "scraperStatus (snd (loadExisting w)) = scraperStatus w"
  "progressStore (snd (loadExisting w)) = progressStore w"
  by (simp_all add: loadExisting_def split: option.split json_file.split)

lemma afterRead_fields [simp]:
  "outputFile (afterRead i w) = outputFile w"
  "scraperStatus (afterRead i w) = (scraperStatus w)(i \<mapsto> Running)"
  "log (afterRead i w) = log w"
  by (simp_all add: afterRead_def setScraperStatus_def)

lemma theK_run_shape:
  assumes "inputFile env = Some (Json shops)"
  shows "snd (scrapeTheKgolf env w) =
           theK_finish env
             (theK_loop env shops (theK_resumeIndex w)
                (fst (loadExisting (afterRead theK_id w)))
                (snd (loadExisting (afterRead theK_id w))))"
proof -
  let ?wa = "w \<lparr> scraperStatus := setScraperStatus (scraperStatus w) theK_id Running \<rparr>"
  obtain p st where rp: "readProgress (progressStore w) theK_id NonNumber = Inr (p, st)"
    using readProgress_NonNumber by blast
  have start: "orDefault (currentShopIndex (fieldsOf p)) 0 = theK_resumeIndex w"
    using rp by (auto simp: readProgress_cases theK_resumeIndex_eq emptyObject_def orDefault_def
        split: option.splits)
  have "afterRead theK_id w = ?wa \<lparr> progressStore := st \<rparr>"
    using rp by (simp add: afterRead_def)
  then show ?thesis
    using rp assms start by (simp add: scrapeTheKgolf_def Let_def split: prod.split)
qed

lemma theK_idempotent_resume:
  assumes inp: "inputFile env = Some (Json shops)"
    and ns: "\<forall>j. \<not> stopRequest env j" and nw: "\<forall>j<k. \<not> writeFails env j"
    and k: "theK_resumeIndex w0 \<le> k" "k < length shops"
  shows "theK_resumeIndex (snd (scrapeTheKgolf (env \<lparr> stopRequest := (\<lambda>i. i = k) \<rparr>) w0)) = k
       \<and> getScraperStatus
            (scraperStatus (snd (scrapeTheKgolf (env \<lparr> stopRequest := (\<lambda>i. i = k) \<rparr>) w0)))
            theK_id = Idle
       \<and> outputFile (snd (scrapeTheKgolf env
            (snd (scrapeTheKgolf (env \<lparr> stopRequest := (\<lambda>i. i = k) \<rparr>) w0))))
          = outputFile (snd (scrapeTheKgolf env w0))"
proof -
  let ?env1 = "env \<lparr> stopRequest := (\<lambda>i. i = k) \<rparr>"
  let ?s = "theK_resumeIndex w0"
  let ?acc0 = "fst (loadExisting (afterRead theK_id w0))"
  let ?w3 = "snd (loadExisting (afterRead theK_id w0))"
  have inp1: "inputFile ?env1 = Some (Json shops)" using inp by simp
  note runU = theK_run_shape [OF inp, of w0]
  note run1 = theK_run_shape [OF inp1, of w0]
  have reg3: "scraperStatus ?w3 = (scraperStatus w0)(theK_id \<mapsto> Running)"
    by (simp add: loadExisting_fst_snd)
  then have st3: "getScraperStatus (scraperStatus ?w3) theK_id \<noteq> Stopped"
    by (simp add: getScraperStatus_def)
  have sync: "fst (loadExisting ?w3) = ?acc0"
    by (rule loaded_outputFile) (simp add: loadExisting_fst_snd)
  from theK_prefix [OF ns nw k(2) k(1) st3 sync] obtain acc_k w_k where
    pU: "theK_loop env shops ?s ?acc0 ?w3 = theK_loop env shops k acc_k w_k" and
    p1: "theK_loop ?env1 shops ?s ?acc0 ?w3 =
           (ThrowStopped, acc_k,
            w_k \<lparr> progressStore := (progressStore w_k)(theK_id \<mapsto> theK_position k),
                  scraperStatus := (scraperStatus w_k)(theK_id \<mapsto> Idle),
                  log := log w_k @ [(INFO, UnitHeader k), (INFO, StopSignal)] \<rparr>)" and
    sk: "fst (loadExisting w_k) = acc_k" and rk: "scraperStatus w_k = scraperStatus ?w3"
    by blast
  define W1 where "W1 = snd (scrapeTheKgolf ?env1 w0)"
  have W1: "progressStore W1 = (progressStore w_k)(theK_id \<mapsto> theK_position k)"
    "scraperStatus W1 = (scraperStatus w_k)(theK_id \<mapsto> Idle)"
    "outputFile W1 = outputFile w_k"
    unfolding W1_def run1 p1 by (simp_all add: theK_finish_def)
  have res1: "theK_resumeIndex W1 = k"
    using W1(1) by (simp add: theK_resumeIndex_eq theK_position_def emptyObject_def orDefault_def)
  have idle: "getScraperStatus (scraperStatus W1) theK_id = Idle"
    using W1(2) by (simp add: getScraperStatus_def)
  let ?v3 = "snd (loadExisting (afterRead theK_id W1))"
  have acc2: "fst (loadExisting (afterRead theK_id W1)) = acc_k"
    using loaded_outputFile [of "afterRead theK_id W1" w_k] W1(3) sk by simp
  have run2: "snd (scrapeTheKgolf env W1) = theK_finish env (theK_loop env shops k acc_k ?v3)"
    using theK_run_shape [OF inp, of W1] res1 acc2 by simp
  have "scraperStatus ?v3 = (scraperStatus w_k)(theK_id \<mapsto> Running)"
    using W1(2) by (simp add: loadExisting_fst_snd)
  also have "\<dots> = scraperStatus w_k" using rk reg3 by simp
  finally have sd: "sameDisk w_k ?v3"
    using W1(3) by (simp add: sameDisk_def loadExisting_fst_snd)
  obtain sig a x where lU: "theK_loop env shops k acc_k w_k = (sig, a, x)"
    by (cases "theK_loop env shops k acc_k w_k") auto
  from theK_loop_sameDisk [OF sd lU] obtain x' where
    l2: "theK_loop env shops k acc_k ?v3 = (sig, a, x')" and sx: "sameDisk x x'" by blast
  have "outputFile (snd (scrapeTheKgolf env W1)) = outputFile (snd (scrapeTheKgolf env w0))"
    using run2 runU pU lU l2 theK_finish_sameDisk [OF sx, of env sig a] by simp
  with res1 idle show ?thesis unfolding W1_def by simp
qed

lemma arrive_False [simp]: "arrive False i w = w"
  by (simp add: arrive_def)

lemma fg_more_quiet:
  assumes "fg_more r p steps n acc w = Some y"
    and "\<forall>m. \<not> stepStops (steps m)"
    and "getScraperStatus (scraperStatus w) fg_id \<noteq> Stopped"
  shows "fst y \<noteq> ThrowStopped \<and> scraperStatus (snd (snd y)) = scraperStatus w
       \<and> ((\<forall>m. \<not> stepWriteFails (steps m)) \<longrightarrow> fst (loadExisting w) = acc
            \<longrightarrow> fst (loadExisting (snd (snd y))) = fst (snd y))"
  using assms
proof (induction r p steps n acc w y rule: fg_more_induct)
  case (round more r p steps n acc w y)
  show ?case
  proof (cases "steps n")
    case ButtonGone
    with round(2) show ?thesis by auto
  next
    case ButtonHidden
    with round(2) show ?thesis by auto
  next
    case ProbeThrows
    with round(2) show ?thesis by auto
  next
    case (ClickFails stop)
    then have ns: "\<not> stop" using round(3) [rule_format, of n] by simp
    let ?w1 = "logLine ERROR MoreClickFailed w"
    have st: "getScraperStatus (scraperStatus ?w1) fg_id \<noteq> Stopped" using round(4) by simp
    with round(2) ClickFails ns have "more r p steps (n + 1) acc ?w1 = Some y"
      by (simp add: Let_def)
    from round(1) [OF this round(3) st] show ?thesis
      using loaded_outputFile [of ?w1 w] by simp
  next
    case (MoreShops newShops wf stop)
    then have ns: "\<not> stop" using round(3) [rule_format, of n] by simp
    let ?pushed = "acc @ uniqueNewShops acc newShops"
    let ?w1 = "writeJsonLogged wf ?pushed w"
    have st: "getScraperStatus (scraperStatus ?w1) fg_id \<noteq> Stopped" using round(4) by simp
    with round(2) MoreShops ns have m: "more r p steps (n + 1) ?pushed ?w1 = Some y"
      by (simp add: Let_def)
    note ih = round(1) [OF m round(3) st]
    show ?thesis
    proof (intro conjI impI)
      show "fst y \<noteq> ThrowStopped" using ih by simp
      show "scraperStatus (snd (snd y)) = scraperStatus w" using ih by simp
    next
      assume a: "\<forall>m. \<not> stepWriteFails (steps m)" "fst (loadExisting w) = acc"
      then have "\<not> wf" using MoreShops a(1) [rule_format, of n] by simp
      then have "fst (loadExisting ?w1) = ?pushed" by simp
      with ih a(1) show "fst (loadExisting (snd (snd y))) = fst (snd y)" by simp
    qed
  qed
qed

lemma fg_more_sameDisk:
  assumes "fg_more r p steps n acc w = Some y" and "sameDisk w v"
  shows "\<exists>v'. fg_more r p steps n acc v = Some (fst y, fst (snd y), v')
              \<and> sameDisk (snd (snd y)) v'"
  using assms
proof (induction r p steps n acc w y arbitrary: v rule: fg_more_induct)
  case (round more r p steps n acc w y)
  have so: "outputFile w = outputFile v" and ss: "scraperStatus w = scraperStatus v"
    using round(3) by (simp_all add: sameDisk_def)
  show ?case
  proof (cases "steps n")
    case ButtonGone
    with round(2,3) show ?thesis by (auto simp: fg_more.simps [of r p steps n])
  next
    case ButtonHidden
    with round(2,3) show ?thesis by (auto simp: fg_more.simps [of r p steps n])
  next
    case ProbeThrows
    with round(2,3) show ?thesis by (auto simp: fg_more.simps [of r p steps n])
  next
    case (ClickFails stop)
    let ?w1 = "arrive stop fg_id (logLine ERROR MoreClickFailed w)"
    let ?v1 = "arrive stop fg_id (logLine ERROR MoreClickFailed v)"
    have sd: "sameDisk ?w1 ?v1" using so ss by (simp add: sameDisk_def arrive_def)
    then have eqs: "scraperStatus ?w1 = scraperStatus ?v1" by (simp add: sameDisk_def)
    show ?thesis
    proof (cases "getScraperStatus (scraperStatus ?w1) fg_id = Stopped")
      case True
      with round(2) ClickFails have y: "y = (ThrowStopped, acc, fg_stop r p ?w1)"
        by (simp add: Let_def)
      have "fg_more r p steps n acc v = Some (ThrowStopped, acc, fg_stop r p ?v1)"
        using True eqs ClickFails by (simp add: fg_more.simps [of r p steps n] Let_def)
      moreover have "sameDisk (fg_stop r p ?w1) (fg_stop r p ?v1)"
        using sd by (simp add: sameDisk_def)
      ultimately show ?thesis using y by simp
    next
      case False
      with round(2) ClickFails have m: "more r p steps (n + 1) acc ?w1 = Some y"
        by (simp add: Let_def)
      have "fg_more r p steps n acc v = fg_more r p steps (n + 1) acc ?v1"
        using False eqs ClickFails by (simp add: fg_more.simps [of r p steps n] Let_def)
      with round(1) [OF m sd] show ?thesis by simp
    qed
  next
    case (MoreShops newShops wf stop)
    let ?pushed = "acc @ uniqueNewShops acc newShops"
    let ?w1 = "arrive stop fg_id (writeJsonLogged wf ?pushed w)"
    let ?v1 = "arrive stop fg_id (writeJsonLogged wf ?pushed v)"
    have sd: "sameDisk ?w1 ?v1" using so ss by (simp add: sameDisk_def arrive_def)
    then have eqs: "scraperStatus ?w1 = scraperStatus ?v1" by (simp add: sameDisk_def)
    show ?thesis
    proof (cases "getScraperStatus (scraperStatus ?w1) fg_id = Stopped")
      case True
      with round(2) MoreShops have y: "y = (ThrowStopped, ?pushed, fg_stop r p ?w1)"
        by (simp add: Let_def)
      have "fg_more r p steps n acc v = Some (ThrowStopped, ?pushed, fg_stop r p ?v1)"
        using True eqs MoreShops by (simp add: fg_more.simps [of r p steps n] Let_def)
      moreover have "sameDisk (fg_stop r p ?w1) (fg_stop r p ?v1)"
        using sd by (simp add: sameDisk_def)
      ultimately show ?thesis using y by simp
    next
      case False
      with round(2) MoreShops have m: "more r p steps (n + 1) ?pushed ?w1 = Some y"
        by (simp add: Let_def)
      have "fg_more r p steps n acc v = fg_more r p steps (n + 1) ?pushed ?v1"
        using False eqs MoreShops by (simp add: fg_more.simps [of r p steps n] Let_def)
      with round(1) [OF m sd] show ?thesis by simp
    qed
  qed
qed

lemma fg_body_env:
  "fg_body (env \<lparr> fg_stopAtUnit := f \<rparr>) r p acc cpi w = fg_body env r p acc cpi w"
  by (simp add: fg_body_def Let_def cong del: if_weak_cong)

lemma fg_body_quiet:
  assumes b: "fg_body env r p acc cpi w = Some (sig, a, c, w')"
    and q: "\<not> unitStops (fg_unit env r p)"
    and st: "getScraperStatus (scraperStatus w) fg_id \<noteq> Stopped"
  shows "sig = Next \<and> scraperStatus w' = scraperStatus w
       \<and> (\<not> unitWriteFails (fg_unit env r p) \<longrightarrow> fst (loadExisting w) = acc
            \<longrightarrow> fst (loadExisting w') = a)"
proof -
  let ?w = "logLine INFO (UnitHeader p) w"
  have ns: "getScraperStatus (scraperStatus ?w) fg_id \<noteq> Stopped" using st by simp
  show ?thesis
  proof (cases "fg_unit env r p")
    case NavigationThrows
    with b ns have
      "sig = Next \<and> a = acc
       \<and> w' = (logLine ERROR (UnitError p) ?w)
                \<lparr> progressStore := saveProgress (progressStore (logLine ERROR (UnitError p) ?w))
                                      fg_id (fg_position r p) \<rparr>"
      by (simp add: fg_body_def Let_def)
    then show ?thesis using loaded_outputFile [of w' w] by simp
  next
    case ResultsTimeout
    with b ns have "sig = Next \<and> a = acc \<and> w' = logLine ERROR (NoResults p) ?w"
      by (simp add: fg_body_def Let_def)
    then show ?thesis using loaded_outputFile [of w' w] by simp
  next
    case (Results shops wf steps)
    let ?w1 = "writeJsonLogged wf (acc @ shops) ?w"
    from b ns Results obtain y where
      m: "fg_more r p steps 0 (acc @ shops) ?w1 = Some y"
      by (cases "fg_more r p steps 0 (acc @ shops) ?w1") (auto simp: fg_body_def Let_def)
    have qs: "\<forall>m. \<not> stepStops (steps m)" using q Results by simp
    have st1: "getScraperStatus (scraperStatus ?w1) fg_id \<noteq> Stopped" using st by simp
    note f = fg_more_quiet [OF m qs st1]
    obtain s1 a1 w1 where y: "y = (s1, a1, w1)" by (cases y) auto
    have sync: "\<not> unitWriteFails (fg_unit env r p) \<Longrightarrow> fst (loadExisting w1) = a1"
    proof -
      assume "\<not> unitWriteFails (fg_unit env r p)"
      then have "\<not> wf" "\<forall>m. \<not> stepWriteFails (steps m)" using Results by simp_all
      then show ?thesis using f y by simp
    qed
    have reg: "scraperStatus w1 = scraperStatus w" using f y by simp
    show ?thesis
    proof (cases s1)
      case Next
      with b ns Results m y have
        "sig = Next \<and> a = a1
         \<and> w' = w1 \<lparr> progressStore := saveProgress (progressStore w1) fg_id
                                         (fg_position r (p + 1)) \<rparr>"
        by (auto simp: fg_body_def Let_def)
      then show ?thesis using sync reg loaded_outputFile [of w' w1] by simp
    next
      case ThrowStopped
      then show ?thesis using f y by simp
    next
      case Break
      with b ns Results m y have
        "sig = Next \<and> a = a1
         \<and> w' = (logLine ERROR (UnitError p) w1)
                  \<lparr> progressStore := saveProgress (progressStore (logLine ERROR (UnitError p) w1))
                                        fg_id (fg_position r p) \<rparr>"
        by (auto simp: fg_body_def Let_def)
      then show ?thesis using sync reg loaded_outputFile [of w' w1] by simp
    next
      case Return
      with b ns Results m y have
        "sig = Next \<and> a = a1
         \<and> w' = (logLine ERROR (UnitError p) w1)
                  \<lparr> progressStore := saveProgress (progressStore (logLine ERROR (UnitError p) w1))
                                        fg_id (fg_position r p) \<rparr>"
        by (auto simp: fg_body_def Let_def)
      then show ?thesis using sync reg loaded_outputFile [of w' w1] by simp
    next
      case ThrowError
      with b ns Results m y have
        "sig = Next \<and> a = a1
         \<and> w' = (logLine ERROR (UnitError p) w1)
                  \<lparr> progressStore := saveProgress (progressStore (logLine ERROR (UnitError p) w1))
                                        fg_id (fg_position r p) \<rparr>"
        by (auto simp: fg_body_def Let_def)
      then show ?thesis using sync reg loaded_outputFile [of w' w1] by simp
    qed
  qed
qed

lemma sameDisk_fields:
  "outputFile w = outputFile v \<Longrightarrow> scraperStatus w = scraperStatus v \<Longrightarrow> sameDisk w v"
  by (simp add: sameDisk_def)

lemma fg_body_sameDisk:
  assumes sd: "sameDisk w v" and b: "fg_body env r p acc cpi w = Some (sig, a, c, w')"
  shows "\<exists>c' v'. fg_body env r p acc cpi' v = Some (sig, a, c', v') \<and> sameDisk w' v'"
proof -
  let ?w = "logLine INFO (UnitHeader p) w"
  let ?v = "logLine INFO (UnitHeader p) v"
  have so: "outputFile w = outputFile v" and ss: "scraperStatus w = scraperStatus v"
    using sd by (simp_all add: sameDisk_def)
  show ?thesis
  proof (cases "getScraperStatus (scraperStatus ?w) fg_id = Stopped")
    case True
    with b have "sig = ThrowStopped \<and> a = acc \<and> w' = fg_stop r p ?w"
      by (simp add: fg_body_def Let_def)
    moreover have "fg_body env r p acc cpi' v = Some (ThrowStopped, acc, cpi', fg_stop r p ?v)"
      using True ss by (simp add: fg_body_def Let_def)
    moreover have "sameDisk (fg_stop r p ?w) (fg_stop r p ?v)"
      using so ss by (simp add: sameDisk_def)
    ultimately show ?thesis by simp
  next
    case ns: False
    then have nv: "getScraperStatus (scraperStatus ?v) fg_id \<noteq> Stopped" using ss by simp
    show ?thesis
    proof (cases "fg_unit env r p")
      case NavigationThrows
      with b ns have
        "sig = Next \<and> a = acc
         \<and> w' = (logLine ERROR (UnitError p) ?w)
                  \<lparr> progressStore := saveProgress (progressStore (logLine ERROR (UnitError p) ?w))
                                        fg_id (fg_position r p) \<rparr>"
        by (simp add: fg_body_def Let_def)
      moreover have
        "fg_body env r p acc cpi' v = Some (Next, acc, cpi',
           (logLine ERROR (UnitError p) ?v)
             \<lparr> progressStore := saveProgress (progressStore (logLine ERROR (UnitError p) ?v))
                                   fg_id (fg_position r p) \<rparr>)"
        using NavigationThrows nv by (simp add: fg_body_def Let_def)
      ultimately show ?thesis using so ss by (simp add: sameDisk_def)
    next
      case ResultsTimeout
      with b ns have "sig = Next \<and> a = acc \<and> w' = logLine ERROR (NoResults p) ?w"
        by (simp add: fg_body_def Let_def)
      moreover have
        "fg_body env r p acc cpi' v = Some (Next, acc, cpi', logLine ERROR (NoResults p) ?v)"
        using ResultsTimeout nv by (simp add: fg_body_def Let_def)
      ultimately show ?thesis using so ss by (simp add: sameDisk_def)
    next
      case (Results shops wf steps)
      let ?w1 = "writeJsonLogged wf (acc @ shops) ?w"
      let ?v1 = "writeJsonLogged wf (acc @ shops) ?v"
      from b ns Results obtain y where
        m: "fg_more r p steps 0 (acc @ shops) ?w1 = Some y"
        by (cases "fg_more r p steps 0 (acc @ shops) ?w1") (auto simp: fg_body_def Let_def)
      have sd1: "sameDisk ?w1 ?v1" using so ss by (simp add: sameDisk_def)
      obtain s1 a1 w1 where y: "y = (s1, a1, w1)" by (cases y) auto
      from fg_more_sameDisk [OF m sd1] y obtain v1 where
        mv: "fg_more r p steps 0 (acc @ shops) ?v1 = Some (s1, a1, v1)" and
        sdv: "sameDisk w1 v1" by auto
      have so1: "outputFile w1 = outputFile v1" and ss1: "scraperStatus w1 = scraperStatus v1"
        using sdv by (simp_all add: sameDisk_def)
      show ?thesis
      proof (cases s1)
        case Next
        with b ns Results m y have
          "sig = Next \<and> a = a1
           \<and> w' = w1 \<lparr> progressStore := saveProgress (progressStore w1) fg_id
                                           (fg_position r (p + 1)) \<rparr>"
          by (auto simp: fg_body_def Let_def)
        moreover have
          "fg_body env r p acc cpi' v = Some (Next, a1, p + 1,
             v1 \<lparr> progressStore := saveProgress (progressStore v1) fg_id
                                     (fg_position r (p + 1)) \<rparr>)"
          using Results nv mv Next by (simp add: fg_body_def Let_def)
        ultimately show ?thesis using so1 ss1 by (simp add: sameDisk_def)
      next
        case ThrowStopped
        with b ns Results m y have "sig = Break \<and> a = a1 \<and> w' = logLine INFO Halted w1"
          by (auto simp: fg_body_def Let_def)
        moreover have
          "fg_body env r p acc cpi' v = Some (Break, a1, cpi', logLine INFO Halted v1)"
          using Results nv mv ThrowStopped by (simp add: fg_body_def Let_def)
        ultimately show ?thesis using so1 ss1 by (simp add: sameDisk_def)
      next
        case Break
        with b ns Results m y have
          "sig = Next \<and> a = a1
           \<and> w' = (logLine ERROR (UnitError p) w1)
                    \<lparr> progressStore := saveProgress (progressStore (logLine ERROR (UnitError p) w1))
                                          fg_id (fg_position r p) \<rparr>"
          by (auto simp: fg_body_def Let_def)
        moreover have
          "fg_body env r p acc cpi' v = Some (Next, a1, cpi',
             (logLine ERROR (UnitError p) v1)
               \<lparr> progressStore := saveProgress (progressStore (logLine ERROR (UnitError p) v1))
                                     fg_id (fg_position r p) \<rparr>)"
          using Results nv mv Break by (simp add: fg_body_def Let_def)
        ultimately show ?thesis using so1 ss1 by (simp add: sameDisk_def)
      next
        case Return
        with b ns Results m y have
          "sig = Next \<and> a = a1
           \<and> w' = (logLine ERROR (UnitError p) w1)
                    \<lparr> progressStore := saveProgress (progressStore (logLine ERROR (UnitError p) w1))
                                          fg_id (fg_position r p) \<rparr>"
          by (auto simp: fg_body_def Let_def)
        moreover have
          "fg_body env r p acc cpi' v = Some (Next, a1, cpi',
             (logLine ERROR (UnitError p) v1)
               \<lparr> progressStore := saveProgress (progressStore (logLine ERROR (UnitError p) v1))
                                     fg_id (fg_position r p) \<rparr>)"
          using Results nv mv Return by (simp add: fg_body_def Let_def)
        ultimately show ?thesis using so1 ss1 by (simp add: sameDisk_def)
      next
        case ThrowError
        with b ns Results m y have
          "sig = Next \<and> a = a1
           \<and> w' = (logLine ERROR (UnitError p) w1)
                    \<lparr> progressStore := saveProgress (progressStore (logLine ERROR (UnitError p) w1))
                                          fg_id (fg_position r p) \<rparr>"
          by (auto simp: fg_body_def Let_def)
        moreover have
          "fg_body env r p acc cpi' v = Some (Next, a1, cpi',
             (logLine ERROR (UnitError p) v1)
               \<lparr> progressStore := saveProgress (progressStore (logLine ERROR (UnitError p) v1))
                                     fg_id (fg_position r p) \<rparr>)"
          using Results nv mv ThrowError by (simp add: fg_body_def Let_def)
        ultimately show ?thesis using so1 ss1 by (simp add: sameDisk_def)
      qed
    qed
  qed
qed

lemma fg_pages_stop_here:
  assumes "k < d"
  shows "fg_pages (env \<lparr> fg_stopAtUnit := (\<lambda>r p. p = k) \<rparr>) r d k acc cpi w =
           Some (ThrowStopped, acc, cpi,
             w \<lparr> progressStore := (progressStore w)(fg_id \<mapsto> fg_position r k),
                 scraperStatus := (scraperStatus w)(fg_id \<mapsto> Idle),
                 log := log w @ [(INFO, UnitHeader k), (INFO, StopSignal)] \<rparr>)"
  using assms
  by (simp add: fg_pages.simps [of _ r d k] fg_body_def fg_stop_def Let_def arrive_def logLine_def
      stopScraper_def resetScraper_def setScraperStatus_def getScraperStatus_def saveProgress_def)

lemma fg_prefix:
  assumes ns: "\<forall>p. \<not> fg_stopAtUnit env r p" and nu: "\<forall>p. \<not> unitStops (fg_unit env r p)"
    and nw: "\<forall>j<k. \<not> unitWriteFails (fg_unit env r j)" and kd: "k < d"
  shows "i \<le> k \<Longrightarrow> getScraperStatus (scraperStatus w) fg_id \<noteq> Stopped \<Longrightarrow>
         fst (loadExisting w) = acc \<Longrightarrow> fg_pages env r d i acc cpi w \<noteq> None \<Longrightarrow>
         \<exists>acc_k cpi_k w_k.
            fg_pages env r d i acc cpi w = fg_pages env r d k acc_k cpi_k w_k
          \<and> fg_pages (env \<lparr> fg_stopAtUnit := (\<lambda>r p. p = k) \<rparr>) r d i acc cpi w =
              Some (ThrowStopped, acc_k, cpi_k,
                w_k \<lparr> progressStore := (progressStore w_k)(fg_id \<mapsto> fg_position r k),
                      scraperStatus := (scraperStatus w_k)(fg_id \<mapsto> Idle),
                      log := log w_k @ [(INFO, UnitHeader k), (INFO, StopSignal)] \<rparr>)
          \<and> fst (loadExisting w_k) = acc_k \<and> scraperStatus w_k = scraperStatus w"
proof (induction "k - i" arbitrary: i acc cpi w)
  case 0
  then have "i = k" by simp
  then show ?case using fg_pages_stop_here [OF kd] 0 by blast
next
  case (Suc n)
  then have lt: "i < k" by simp
  then have il: "i < d" using kd by simp
  let ?env1 = "env \<lparr> fg_stopAtUnit := (\<lambda>r p. p = k) \<rparr>"
  from Suc.prems(4) il ns obtain s1 a1 c1 w1 where
    b: "fg_body env r i acc cpi w = Some (s1, a1, c1, w1)"
    by (cases "fg_body env r i acc cpi w") (auto simp: fg_pages.simps [of env r d i])
  from fg_body_quiet [OF b nu [rule_format] Suc.prems(2)] lt nw Suc.prems(3) have
    f: "s1 = Next" "scraperStatus w1 = scraperStatus w" "fst (loadExisting w1) = a1" by auto
  have u: "fg_pages env r d i acc cpi w = fg_pages env r d (i + 1) a1 c1 w1"
    using il b f(1) ns by (simp add: fg_pages.simps [of env r d i])
  have v: "fg_pages ?env1 r d i acc cpi w = fg_pages ?env1 r d (i + 1) a1 c1 w1"
    using il b f(1) lt by (simp add: fg_pages.simps [of ?env1 r d i] fg_body_env)
  have n: "n = k - (i + 1)" and ik: "i + 1 \<le> k" using Suc.hyps(2) lt by simp_all
  have st1: "getScraperStatus (scraperStatus w1) fg_id \<noteq> Stopped"
    using f(2) Suc.prems(2) by simp
  have nn: "fg_pages env r d (i + 1) a1 c1 w1 \<noteq> None" using u Suc.prems(4) by simp
  from Suc.hyps(1) [OF n ik st1 f(3) nn] obtain acc_k cpi_k w_k where r:
    "fg_pages env r d (i + 1) a1 c1 w1 = fg_pages env r d k acc_k cpi_k w_k"
    "fg_pages ?env1 r d (i + 1) a1 c1 w1 =
       Some (ThrowStopped, acc_k, cpi_k,
         w_k \<lparr> progressStore := (progressStore w_k)(fg_id \<mapsto> fg_position r k),
               scraperStatus := (scraperStatus w_k)(fg_id \<mapsto> Idle),
               log := log w_k @ [(INFO, UnitHeader k), (INFO, StopSignal)] \<rparr>)"
    "fst (loadExisting w_k) = acc_k" "scraperStatus w_k = scraperStatus w1"
    by blast
  have "scraperStatus w_k = scraperStatus w" using r(4) f(2) by simp
  with r(1,2,3) u v show ?case by metis
qed

lemma fg_pages_sameDisk:
  "sameDisk w v \<Longrightarrow> fg_pages env r d p acc cpi w = Some (sig, a, c, w') \<Longrightarrow>
   \<exists>c' v'. fg_pages env r d p acc cpi' v = Some (sig, a, c', v') \<and> sameDisk w' v'"
proof (induction "d - p" arbitrary: p acc cpi cpi' w v)
  case 0
  then show ?case by (simp add: fg_pages.simps [of env r d p])
next
  case (Suc n)
  then have lt: "p < d" by simp
  let ?w = "arrive (fg_stopAtUnit env r p) fg_id w"
  let ?v = "arrive (fg_stopAtUnit env r p) fg_id v"
  from Suc.prems(2) lt obtain s1 a1 c1 w1 where
    b: "fg_body env r p acc cpi ?w = Some (s1, a1, c1, w1)"
    by (cases "fg_body env r p acc cpi ?w") (auto simp: fg_pages.simps [of env r d p])
  from fg_body_sameDisk [OF sameDisk_arrive [OF Suc.prems(1)] b] obtain c1' v1 where
    bv: "fg_body env r p acc cpi' ?v = Some (s1, a1, c1', v1)" and d1: "sameDisk w1 v1"
    by blast
  show ?case
  proof (cases "s1 = Next")
    case False
    then have "fg_pages env r d p acc cpi w = Some (s1, a1, c1, w1)"
      "fg_pages env r d p acc cpi' v = Some (s1, a1, c1', v1)"
      using lt b bv by (cases s1; simp add: fg_pages.simps [of env r d p])+
    then show ?thesis using Suc.prems(2) d1 by auto
  next
    case True
    then have "fg_pages env r d p acc cpi w = fg_pages env r d (p + 1) a1 c1 w1"
      "fg_pages env r d p acc cpi' v = fg_pages env r d (p + 1) a1 c1' v1"
      using lt b bv by (simp_all add: fg_pages.simps [of env r d p])
    moreover have "n = d - (p + 1)" using Suc.hyps(2) by simp
    ultimately show ?thesis using Suc.hyps(1) [OF _ d1, of "p + 1" a1 c1 c1'] Suc.prems(2)
      by simp
  qed
qed

lemma fg_run_shape:
  "scrapeFriendgolf env w =
     fg_finish (fg_regions env regions (fg_resumeRegion w)
       (fst (loadExisting (afterRead fg_id w))) (fg_resumePage w)
       (snd (loadExisting (afterRead fg_id w))))"
proof -
  let ?wa = "w \<lparr> scraperStatus := setScraperStatus (scraperStatus w) fg_id Running \<rparr>"
  obtain p st where rp: "readProgress (progressStore w) fg_id NonNumber = Inr (p, st)"
    using readProgress_NonNumber by blast
  have start: "orDefault (currentRegionIndex (fieldsOf p)) 0 = fg_resumeRegion w"
    "orDefault (currentPageIndex (fieldsOf p)) 0 = fg_resumePage w"
    using rp
    by (auto simp: readProgress_cases fg_resumeRegion_eq fg_resumePage_eq emptyObject_def
        orDefault_def split: option.splits)
  have "afterRead fg_id w = ?wa \<lparr> progressStore := st \<rparr>"
    using rp by (simp add: afterRead_def)
  then show ?thesis
    using rp start
    by (simp add: scrapeFriendgolf_def scrapeFriendgolfOn_def Let_def split: prod.split)
qed

lemma fg_tail_sameDisk:
  assumes "sameDisk x x'"
  shows "\<exists>res y y'.
     fg_finish (case Some (sig, a, c, x) of
                  None \<Rightarrow> None
                | Some (ThrowStopped, a, c, w') \<Rightarrow> Some (ThrowStopped, a, c, w')
                | Some (_, a, c, w') \<Rightarrow> Some (Next, a, c, fg_regionEnd env 0 a w'))
       = Some (res, y)
   \<and> fg_finish (case Some (sig, a, c', x') of
                  None \<Rightarrow> None
                | Some (ThrowStopped, a, c, w') \<Rightarrow> Some (ThrowStopped, a, c, w')
                | Some (_, a, c, w') \<Rightarrow> Some (Next, a, c, fg_regionEnd env 0 a w'))
       = Some (res, y')
   \<and> outputFile y = outputFile y'"
  using assms
  by (cases sig) (simp_all add: fg_finish_def fg_regionEnd_def sameDisk_def)

lemma fg_idempotent_resume:
  assumes U: "scrapeFriendgolf env w0 = Some (rU, wU)"
    and ns: "\<forall>r p. \<not> fg_stopAtUnit env r p" and nu: "\<forall>r p. \<not> unitStops (fg_unit env r p)"
    and nw: "\<forall>j<k. \<not> unitWriteFails (fg_unit env 0 j)"
    and pos: "fg_resumeRegion w0 = 0" "fg_resumePage w0 \<le> k" "k < 25"
  shows "\<exists>r1 w1 r2 w2.
           scrapeFriendgolf (env \<lparr> fg_stopAtUnit := (\<lambda>r p. p = k) \<rparr>) w0 = Some (r1, w1)
         \<and> fg_resumeRegion w1 = 0 \<and> fg_resumePage w1 = k
         \<and> getScraperStatus (scraperStatus w1) fg_id = Idle
         \<and> scrapeFriendgolf env w1 = Some (r2, w2)
         \<and> outputFile w2 = outputFile wU"
proof -
  let ?env1 = "env \<lparr> fg_stopAtUnit := (\<lambda>r p. p = k) \<rparr>"
  let ?s = "fg_resumePage w0"
  let ?acc0 = "fst (loadExisting (afterRead fg_id w0))"
  let ?w3 = "snd (loadExisting (afterRead fg_id w0))"
  let ?w4 = "logLine INFO (RegionHeader 0) ?w3"
  let ?tail = "\<lambda>c r. fg_finish (case r of
                  None \<Rightarrow> None
                | Some (ThrowStopped, a, c, w') \<Rightarrow> Some (ThrowStopped, a, c, w')
                | Some (_, a, c, w') \<Rightarrow> Some (Next, a, c, fg_regionEnd env 0 a w'))"
  have runU: "fg_finish (case fg_pages env 0 25 ?s ?acc0 ?s ?w4 of
                  None \<Rightarrow> None
                | Some (ThrowStopped, a, c, w') \<Rightarrow> Some (ThrowStopped, a, c, w')
                | Some (_, a, c, w') \<Rightarrow> Some (Next, a, c, fg_regionEnd env 0 a w'))
              = Some (rU, wU)"
    using U pos(1) by (simp add: fg_run_shape regions_def fg_regions_single)
  have nn: "fg_pages env 0 25 ?s ?acc0 ?s ?w4 \<noteq> None"
  proof
    assume "fg_pages env 0 25 ?s ?acc0 ?s ?w4 = None"
    with runU show False by (simp add: fg_finish_def)
  qed
  have reg4: "scraperStatus ?w4 = (scraperStatus w0)(fg_id \<mapsto> Running)"
    by (simp add: loadExisting_fst_snd)
  then have st4: "getScraperStatus (scraperStatus ?w4) fg_id \<noteq> Stopped"
    by (simp add: getScraperStatus_def)
  have sync: "fst (loadExisting ?w4) = ?acc0"
    by (rule loaded_outputFile) (simp add: loadExisting_fst_snd)
  have ns0: "\<forall>p. \<not> fg_stopAtUnit env 0 p" and nu0: "\<forall>p. \<not> unitStops (fg_unit env 0 p)"
    using ns nu by simp_all
  from fg_prefix [OF ns0 nu0 nw pos(3) pos(2) st4 sync nn]
  obtain acc_k cpi_k w_k where
    pU: "fg_pages env 0 25 ?s ?acc0 ?s ?w4 = fg_pages env 0 25 k acc_k cpi_k w_k" and
    p1: "fg_pages ?env1 0 25 ?s ?acc0 ?s ?w4 =
           Some (ThrowStopped, acc_k, cpi_k,
             w_k \<lparr> progressStore := (progressStore w_k)(fg_id \<mapsto> fg_position 0 k),
                   scraperStatus := (scraperStatus w_k)(fg_id \<mapsto> Idle),
                   log := log w_k @ [(INFO, UnitHeader k), (INFO, StopSignal)] \<rparr>)" and
    sk: "fst (loadExisting w_k) = acc_k" and rk: "scraperStatus w_k = scraperStatus ?w4"
    by blast
  define W1 where
    "W1 = logLine INFO Halted
            (w_k \<lparr> progressStore := (progressStore w_k)(fg_id \<mapsto> fg_position 0 k),
                   scraperStatus := (scraperStatus w_k)(fg_id \<mapsto> Idle),
                   log := log w_k @ [(INFO, UnitHeader k), (INFO, StopSignal)] \<rparr>)"
  have run1: "scrapeFriendgolf ?env1 w0 = Some (Resolved, W1)"
    using pos(1) p1
    by (simp add: fg_run_shape regions_def fg_regions_single fg_finish_def W1_def)
  have W1: "progressStore W1 fg_id = Some (fg_position 0 k)"
    "scraperStatus W1 = (scraperStatus w_k)(fg_id \<mapsto> Idle)"
    "outputFile W1 = outputFile w_k"
    by (simp_all add: W1_def)
  have res1: "fg_resumeRegion W1 = 0" "fg_resumePage W1 = k"
    using W1(1) by simp_all
  have idle: "getScraperStatus (scraperStatus W1) fg_id = Idle"
    using W1(2) by (simp add: getScraperStatus_def)
  let ?v3 = "snd (loadExisting (afterRead fg_id W1))"
  let ?v4 = "logLine INFO (RegionHeader 0) ?v3"
  have acc2: "fst (loadExisting (afterRead fg_id W1)) = acc_k"
    using loaded_outputFile [of "afterRead fg_id W1" w_k] W1(3) sk by simp
  have run2: "scrapeFriendgolf env W1 =
                fg_finish (case fg_pages env 0 25 k acc_k k ?v4 of
                  None \<Rightarrow> None
                | Some (ThrowStopped, a, c, w') \<Rightarrow> Some (ThrowStopped, a, c, w')
                | Some (_, a, c, w') \<Rightarrow> Some (Next, a, c, fg_regionEnd env 0 a w'))"
    using res1 acc2 by (simp add: fg_run_shape regions_def fg_regions_single)
  have "scraperStatus ?v4 = (scraperStatus w_k)(fg_id \<mapsto> Running)"
    using W1(2) by (simp add: loadExisting_fst_snd)
  also have "\<dots> = scraperStatus w_k" using rk reg4 by simp
  finally have sd: "sameDisk w_k ?v4"
    using W1(3) by (simp add: sameDisk_def loadExisting_fst_snd)
  from nn pU obtain sig a c x where
    lU: "fg_pages env 0 25 k acc_k cpi_k w_k = Some (sig, a, c, x)"
    by (cases "fg_pages env 0 25 k acc_k cpi_k w_k") auto
  from fg_pages_sameDisk [OF sd lU, of k] obtain c' x' where
    l2: "fg_pages env 0 25 k acc_k k ?v4 = Some (sig, a, c', x')" and sx: "sameDisk x x'"
    by blast
  from fg_tail_sameDisk [OF sx, where sig = sig and a = a and c = c and env = env and c' = c']
  obtain res y y' where
    t: "fg_finish (case Some (sig, a, c, x) of
                  None \<Rightarrow> None
                | Some (ThrowStopped, a, c, w') \<Rightarrow> Some (ThrowStopped, a, c, w')
                | Some (_, a, c, w') \<Rightarrow> Some (Next, a, c, fg_regionEnd env 0 a w'))
          = Some (res, y)"
       "fg_finish (case Some (sig, a, c', x') of
                  None \<Rightarrow> None
                | Some (ThrowStopped, a, c, w') \<Rightarrow> Some (ThrowStopped, a, c, w')
                | Some (_, a, c, w') \<Rightarrow> Some (Next, a, c, fg_regionEnd env 0 a w'))
          = Some (res, y')"
       "outputFile y = outputFile y'"
    by blast
  have "y = wU" using runU pU lU t(1) by simp
  moreover have "scrapeFriendgolf env W1 = Some (res, y')" using run2 l2 t(2) by simp
  ultimately show ?thesis using run1 res1 idle t(3) by auto
qed

text \<open>
  C1, as the code has it (scrapeTheKgolf, scrapeFriendgolf): take an environment in which
  nobody asks to stop, and the run it gives from a world \<open>w0\<close>. Let a second run from
  \<open>w0\<close> meet the same responses but a stop request at the top of unit \<open>k\<close>, and let a third
  run, without stop request, resume from the world the second left. If every write to the
  output file in the units before \<open>k\<close> succeeds, the second run leaves a record that
  points at unit \<open>k\<close>, and the third run ends with the same output file as the
  uninterrupted one: the same set of records, even in the same order. For
  scrapeFriendgolf the runs are those in which the button loops end.
\<close>

theorem idempotent_resume:
  "(inputFile env = Some (Json shops) \<and> (\<forall>j. \<not> stopRequest env j)
      \<and> (\<forall>j<k. \<not> writeFails env j) \<and> theK_resumeIndex w0 \<le> k \<and> k < length shops
    \<longrightarrow> theK_resumeIndex (snd (scrapeTheKgolf (env \<lparr> stopRequest := (\<lambda>i. i = k) \<rparr>) w0)) = k
       \<and> outputFile (snd (scrapeTheKgolf env
            (snd (scrapeTheKgolf (env \<lparr> stopRequest := (\<lambda>i. i = k) \<rparr>) w0))))
          = outputFile (snd (scrapeTheKgolf env w0))
       \<and> records (snd (scrapeTheKgolf env
            (snd (scrapeTheKgolf (env \<lparr> stopRequest := (\<lambda>i. i = k) \<rparr>) w0))))
          = records (snd (scrapeTheKgolf env w0)))
   \<and> (scrapeFriendgolf fenv fw0 = Some (rU, fwU) \<and> (\<forall>r p. \<not> fg_stopAtUnit fenv r p)
      \<and> (\<forall>r p. \<not> unitStops (fg_unit fenv r p))
      \<and> (\<forall>j<k. \<not> unitWriteFails (fg_unit fenv 0 j))
      \<and> fg_resumeRegion fw0 = 0 \<and> fg_resumePage fw0 \<le> k \<and> k < 25
    \<longrightarrow> (\<exists>r1 w1 r2 w2.
           scrapeFriendgolf (fenv \<lparr> fg_stopAtUnit := (\<lambda>r p. p = k) \<rparr>) fw0 = Some (r1, w1)
         \<and> fg_resumePage w1 = k
         \<and> scrapeFriendgolf fenv w1 = Some (r2, w2)
         \<and> outputFile w2 = outputFile fwU \<and> records w2 = records fwU))"
proof (intro conjI impI)
  assume h: "inputFile env = Some (Json shops) \<and> (\<forall>j. \<not> stopRequest env j)
      \<and> (\<forall>j<k. \<not> writeFails env j) \<and> theK_resumeIndex w0 \<le> k \<and> k < length shops"
  then show "theK_resumeIndex (snd (scrapeTheKgolf (env \<lparr> stopRequest := (\<lambda>i. i = k) \<rparr>) w0)) = k"
    and f: "outputFile (snd (scrapeTheKgolf env
            (snd (scrapeTheKgolf (env \<lparr> stopRequest := (\<lambda>i. i = k) \<rparr>) w0))))
          = outputFile (snd (scrapeTheKgolf env w0))"
    using theK_idempotent_resume [of env shops k w0] by simp_all
  show "records (snd (scrapeTheKgolf env
            (snd (scrapeTheKgolf (env \<lparr> stopRequest := (\<lambda>i. i = k) \<rparr>) w0))))
          = records (snd (scrapeTheKgolf env w0))"
    using f by (simp add: records_def)
next
  assume "scrapeFriendgolf fenv fw0 = Some (rU, fwU) \<and> (\<forall>r p. \<not> fg_stopAtUnit fenv r p)
      \<and> (\<forall>r p. \<not> unitStops (fg_unit fenv r p))
      \<and> (\<forall>j<k. \<not> unitWriteFails (fg_unit fenv 0 j))
      \<and> fg_resumeRegion fw0 = 0 \<and> fg_resumePage fw0 \<le> k \<and> k < 25"
  then obtain r1 w1 r2 w2 where r:
    "scrapeFriendgolf (fenv \<lparr> fg_stopAtUnit := (\<lambda>r p. p = k) \<rparr>) fw0 = Some (r1, w1)"
    "fg_resumePage w1 = k" "scrapeFriendgolf fenv w1 = Some (r2, w2)"
    "outputFile w2 = outputFile fwU"
    using fg_idempotent_resume [of fenv fw0 rU fwU k] by blast
  then have "records w2 = records fwU" by (simp add: records_def)
  with r show "\<exists>r1 w1 r2 w2.
           scrapeFriendgolf (fenv \<lparr> fg_stopAtUnit := (\<lambda>r p. p = k) \<rparr>) fw0 = Some (r1, w1)
         \<and> fg_resumePage w1 = k
         \<and> scrapeFriendgolf fenv w1 = Some (r2, w2)
         \<and> outputFile w2 = outputFile fwU \<and> records w2 = records fwU"
    by blast
qed

text \<open>
  Three different shops, the stop request before the third: the stopped run has written
  the first two records, the resumed run adds the third to them.
\<close>

theorem idempotent_resume_witness:
  "theK_resumeIndex
     (snd (scrapeTheKgolf (theK_steady \<lparr> stopRequest := (\<lambda>i. i = 2) \<rparr>) emptyWorld)) = 2
   \<and> outputFile (snd (scrapeTheKgolf (theK_steady \<lparr> stopRequest := (\<lambda>i. i = 2) \<rparr>) emptyWorld))
      = Some (Json [\<lparr> shopId = Some ''7'', shopName = ''A'', sensors = [(''P3'', ''4'')] \<rparr>,
                    \<lparr> shopId = Some ''8'', shopName = ''B'', sensors = [(''P3'', ''4'')] \<rparr>])
   \<and> outputFile (snd (scrapeTheKgolf theK_steady
        (snd (scrapeTheKgolf (theK_steady \<lparr> stopRequest := (\<lambda>i. i = 2) \<rparr>) emptyWorld))))
      = Some (Json [\<lparr> shopId = Some ''7'', shopName = ''A'', sensors = [(''P3'', ''4'')] \<rparr>,
                    \<lparr> shopId = Some ''8'', shopName = ''B'', sensors = [(''P3'', ''4'')] \<rparr>,
                    \<lparr> shopId = Some ''9'', shopName = ''C'', sensors = [(''P3'', ''4'')] \<rparr>])
   \<and> outputFile (snd (scrapeTheKgolf theK_steady emptyWorld))
      = Some (Json [\<lparr> shopId = Some ''7'', shopName = ''A'', sensors = [(''P3'', ''4'')] \<rparr>,
                    \<lparr> shopId = Some ''8'', shopName = ''B'', sensors = [(''P3'', ''4'')] \<rparr>,
                    \<lparr> shopId = Some ''9'', shopName = ''C'', sensors = [(''P3'', ''4'')] \<rparr>])
   \<and> (\<exists>rU wU r1 w1 r2 w2.
         scrapeFriendgolf fg_quiet emptyWorld = Some (rU, wU)
       \<and> outputFile wU = Some (Json [fgShopA, fgShopB])
       \<and> scrapeFriendgolf (fg_quiet \<lparr> fg_stopAtUnit := (\<lambda>r p. p = 2) \<rparr>) emptyWorld
            = Some (r1, w1)
       \<and> fg_resumePage w1 = 2
       \<and> outputFile w1 = Some (Json [fgShopA])
       \<and> scrapeFriendgolf fg_quiet w1 = Some (r2, w2)
       \<and> outputFile w2 = Some (Json [fgShopA, fgShopB]))"
proof -
  have a: "inputFile theK_steady = Some (Json [shopA, shopB, shopC])"
    "\<forall>j. \<not> stopRequest theK_steady j" "\<forall>j<2. \<not> writeFails theK_steady j"
    by (simp_all add: theK_steady_def)
  have b: "theK_resumeIndex (emptyWorld :: detailedShop world) \<le> 2"
    "(2::nat) < length [shopA, shopB, shopC]"
    by (simp_all add: theK_resumeIndex_eq emptyWorld_def)
  have u: "outputFile (snd (scrapeTheKgolf theK_steady emptyWorld))
      = Some (Json [\<lparr> shopId = Some ''7'', shopName = ''A'', sensors = [(''P3'', ''4'')] \<rparr>,
                    \<lparr> shopId = Some ''8'', shopName = ''B'', sensors = [(''P3'', ''4'')] \<rparr>,
                    \<lparr> shopId = Some ''9'', shopName = ''C'', sensors = [(''P3'', ''4'')] \<rparr>])"
    by code_simp
  have s: "outputFile (snd (scrapeTheKgolf (theK_steady \<lparr> stopRequest := (\<lambda>i. i = 2) \<rparr>) emptyWorld))
      = Some (Json [\<lparr> shopId = Some ''7'', shopName = ''A'', sensors = [(''P3'', ''4'')] \<rparr>,
                    \<lparr> shopId = Some ''8'', shopName = ''B'', sensors = [(''P3'', ''4'')] \<rparr>])"
    by code_simp
  have "case scrapeFriendgolf fg_quiet emptyWorld of
          None \<Rightarrow> False | Some (r, w) \<Rightarrow> outputFile w = Some (Json [fgShopA, fgShopB])"
    by code_simp
  then obtain rU wU where
    c: "scrapeFriendgolf fg_quiet emptyWorld = Some (rU, wU)"
       "outputFile wU = Some (Json [fgShopA, fgShopB])"
    by (auto split: option.splits)
  have fs: "case scrapeFriendgolf (fg_quiet \<lparr> fg_stopAtUnit := (\<lambda>r p. p = 2) \<rparr>) emptyWorld of
          None \<Rightarrow> False | Some (r, w) \<Rightarrow> outputFile w = Some (Json [fgShopA])"
    by code_simp
  have d: "\<forall>r p. \<not> fg_stopAtUnit fg_quiet r p" "\<forall>r p. \<not> unitStops (fg_unit fg_quiet r p)"
    "\<forall>j<2. \<not> unitWriteFails (fg_unit fg_quiet 0 j)"
    by (simp_all add: fg_quiet_def)
  have e: "fg_resumeRegion (emptyWorld :: fgShop world) = 0"
    "fg_resumePage (emptyWorld :: fgShop world) \<le> 2" "(2::nat) < 25"
    by (simp_all add: fg_resumeRegion_eq fg_resumePage_eq emptyWorld_def)
  note t = idempotent_resume
    [of theK_steady "[shopA, shopB, shopC]" 2 emptyWorld fg_quiet emptyWorld rU wU]
  from t a b have 1: "theK_resumeIndex
     (snd (scrapeTheKgolf (theK_steady \<lparr> stopRequest := (\<lambda>i. i = 2) \<rparr>) emptyWorld)) = 2"
   "outputFile (snd (scrapeTheKgolf theK_steady
        (snd (scrapeTheKgolf (theK_steady \<lparr> stopRequest := (\<lambda>i. i = 2) \<rparr>) emptyWorld))))
      = outputFile (snd (scrapeTheKgolf theK_steady emptyWorld))"
    by blast+
  from t c(1) d e obtain r1 w1 r2 w2 where f:
    "scrapeFriendgolf (fg_quiet \<lparr> fg_stopAtUnit := (\<lambda>r p. p = 2) \<rparr>) emptyWorld = Some (r1, w1)"
    "fg_resumePage w1 = 2" "scrapeFriendgolf fg_quiet w1 = Some (r2, w2)"
    "outputFile w2 = outputFile wU"
    by blast
  from fs f(1) have g: "outputFile w1 = Some (Json [fgShopA])" by simp
  from 1 u s c f g show ?thesis by auto
qed

text \<open>
  The claim C1 as stated fails when a write before the stop has failed. The write after
  the first shop fails (the error is caught and logged, and the record still advances);
  the stop request arrives before the second shop. The uninterrupted run ends with all
  three records, because its later writes carry the whole list. The stopped run leaves no
  file and a record that points at the second shop, so the resumed run starts from an
  empty list and ends without the first record.
\<close>

theorem failed_write_before_stop_loses_record:
  "writeFails theK_lostWrite 0
   \<and> outputFile (snd (scrapeTheKgolf theK_lostWrite emptyWorld))
      = Some (Json [\<lparr> shopId = Some ''7'', shopName = ''A'', sensors = [(''P3'', ''4'')] \<rparr>,
                    \<lparr> shopId = Some ''8'', shopName = ''B'', sensors = [(''P3'', ''4'')] \<rparr>,
                    \<lparr> shopId = Some ''9'', shopName = ''C'', sensors = [(''P3'', ''4'')] \<rparr>])
   \<and> outputFile (snd (scrapeTheKgolf (theK_lostWrite \<lparr> stopRequest := (\<lambda>i. i = 1) \<rparr>) emptyWorld))
      = None
   \<and> theK_resumeIndex
       (snd (scrapeTheKgolf (theK_lostWrite \<lparr> stopRequest := (\<lambda>i. i = 1) \<rparr>) emptyWorld)) = 1
   \<and> outputFile (snd (scrapeTheKgolf theK_lostWrite
        (snd (scrapeTheKgolf (theK_lostWrite \<lparr> stopRequest := (\<lambda>i. i = 1) \<rparr>) emptyWorld))))
      = Some (Json [\<lparr> shopId = Some ''8'', shopName = ''B'', sensors = [(''P3'', ''4'')] \<rparr>,
                    \<lparr> shopId = Some ''9'', shopName = ''C'', sensors = [(''P3'', ''4'')] \<rparr>])"
  by code_simp

subsection \<open>The end of the data\<close>

text \<open>
  C6. Zero-record termination (scrapeOkongolf, scrapeCiteezen): a page that yields no
  record ends the enumeration at once and normally: no later page is opened, the run
  logs that it is complete and the function resolves.
\<close>

theorem zero_record_termination:
  "(pageNum \<le> MAX_PAGE \<and> ok_page env pageNum = Rows []
      \<and> \<not> ok_stopAtPage env pageNum \<and> getScraperStatus (scraperStatus w) ok_id \<noteq> Stopped
    \<longrightarrow> ok_finish (ok_loop env pageNum v w) =
          (Resolved,
           w \<lparr> scraperStatus := (scraperStatus w)(ok_id \<mapsto> Idle),
               progressFiles := progressFiles w - {ok_progressFile},
               log := log w @ [(INFO, UnitHeader pageNum), (INFO, NoData pageNum),
                               (INFO, Completed)] \<rparr>))
   \<and> (pageNum \<le> 100 \<and> listing cenv pageNum = Extracted [] \<and> \<not> stopSignal cenv pageNum
    \<longrightarrow> cz_finish (cz_loop cenv pageNum allStores cw) =
          (Resolved,
           cw \<lparr> log := log cw @ [(INFO, UnitHeader pageNum), (INFO, NoData pageNum),
                                 (INFO, Completed)] \<rparr>))"
  by (simp add: ok_loop.simps [of env pageNum] cz_loop.simps [of cenv pageNum]
      ok_body_def cz_body_def ok_finish_def cz_finish_def arrive_def logLine_def
      resetScraper_def setScraperStatus_def Let_def)

theorem zero_record_termination_witness:
  "ok_finish (ok_loop ok_noData 1 ok_vars0 emptyWorld) =
     (Resolved,
      emptyWorld \<lparr> scraperStatus := [ok_id \<mapsto> Idle],
                   log := [(INFO, UnitHeader 1), (INFO, NoData 1), (INFO, Completed)] \<rparr>)
   \<and> cz_finish (cz_loop cz_noData 1 [] emptyWorld) =
     (Resolved,
      emptyWorld \<lparr> log := [(INFO, UnitHeader 1), (INFO, NoData 1), (INFO, Completed)] \<rparr>)"
  using zero_record_termination [of 1 ok_noData emptyWorld ok_vars0 cz_noData "[]" emptyWorld]
  by (simp add: ok_noData_def cz_noData_def emptyWorld_def MAX_PAGE_def getScraperStatus_def)

subsection \<open>Failures of a unit\<close>







subsection \<open>Completion\<close>

text \<open>
  C7 at a run that completes: two pages with one valid row each. The function resolves,
  but the record of the job is still in the checkpoint store, with \<open>currentPage = 3\<close>;
  a second run opens no page at all.
\<close>

theorem completion_keeps_progress_record:
  "fst (scrapeOkongolf ok_twoPages emptyWorld) = Resolved
   \<and> progressStore (snd (scrapeOkongolf ok_twoPages emptyWorld)) ok_id =
       Some \<lparr> lastProcessedRegionIndex = Some 0, regionsProgress = Some [0],
              currentShopIndex = None, currentRegionIndex = None, currentPageIndex = None,
              currentPage = Some 3, processedIndexes = Some [(1, [0]), (2, [0])] \<rparr>
   \<and> log (snd (scrapeOkongolf ok_twoPages emptyWorld)) =
       [(INFO, UnitHeader 1), (INFO, UnitHeader 2), (INFO, Completed)]
   \<and> log (snd (scrapeOkongolf ok_twoPages (snd (scrapeOkongolf ok_twoPages emptyWorld)))) =
       [(INFO, UnitHeader 1), (INFO, UnitHeader 2), (INFO, Completed), (INFO, Completed)]"
  by code_simp

end
